theory Spec2Isabelle
  imports Complex_Main
begin

section \<open>Conway's Game of Life: the engine of \<open>src/main.ts\<close>\<close>

text \<open>
  The class \<open>Life\<close> of \<open>src/main.ts\<close> holds \<open>width\<close>, \<open>height\<close>, \<open>wrap\<close> and
  \<open>cells\<close>, a \<open>number[][]\<close> (\<open>0\<close> dead, \<open>1\<close> alive). The rows of a grid are JavaScript
  arrays: objects that are shared by reference and written in place by \<open>randomize\<close>, by
  the canvas click handler and by the sweep of \<open>nextGeneration\<close>. The model therefore
  keeps the row arrays in an explicit store, addressed by references, and every operation
  takes the store and returns the new one. The outer array of a grid is written only while
  \<open>createEmpty\<close> builds it, so a grid is the list of its rows' references.

  Widths, heights and coordinates are integers (the application passes \<open>Math.floor\<close>
  results), and the arithmetic on them is exact, as that of JavaScript is below \<open>2^53\<close>;
  running out of memory is not modelled. \<open>Math.random()\<close> is the \<open>k\<close>-th value of a
  sequence of draws given by the caller, and the probability and the draws are real numbers
  (the comparison of two doubles is that of the reals they stand for). Rendering, the DOM
  and the timers are not modelled.
\<close>

subsection \<open>Values, arrays and the store\<close>

text \<open>
  The JavaScript values the engine can meet: \<open>undefined\<close> (a read outside an array, or a
  hole of an array), \<open>NaN\<close> (a remainder by zero, a sum with \<open>undefined\<close>) and the
  integers.
\<close>

datatype jsval = Undefined | NaN | Num int

datatype error = RangeError | TypeError

type_synonym ref = nat

record heap =
  store :: "ref \<Rightarrow> jsval list"
  fresh :: ref

record Life =
  width :: int
  height :: int
  cells :: "ref list"
  wrap :: bool

text \<open>\<open>a[i]\<close> for an array \<open>a\<close>: \<open>undefined\<close> unless \<open>i\<close> is an index of \<open>a\<close>.\<close>

definition js_index :: "jsval list \<Rightarrow> jsval \<Rightarrow> jsval" where
  "js_index a i =
     (case i of
        Num n \<Rightarrow> if 0 \<le> n \<and> n < int (length a) then a ! nat n else Undefined
      | _ \<Rightarrow> Undefined)"

text \<open>\<open>g[y][x]\<close> for a grid \<open>g\<close>: reading \<open>[x]\<close> of \<open>undefined\<close> throws a TypeError.\<close>

definition get_cell :: "ref list \<Rightarrow> heap \<Rightarrow> jsval \<Rightarrow> jsval \<Rightarrow> error + jsval" where
  "get_cell g h y x =
     (case y of
        Num n \<Rightarrow>
          if 0 \<le> n \<and> n < int (length g) then Inr (js_index (store h (g ! nat n)) x)
          else Inl TypeError
      | _ \<Rightarrow> Inl TypeError)"

text \<open>
  \<open>a[i] = v\<close> for an index \<open>i \<ge> 0\<close>: inside the array the element is replaced; past its
  end JavaScript extends the array, leaving holes below \<open>i\<close>.
\<close>

definition array_set :: "jsval list \<Rightarrow> nat \<Rightarrow> jsval \<Rightarrow> jsval list" where
  "array_set a i v =
     (if i < length a then a[i := v]
      else a @ replicate (i - length a) Undefined @ [v])"

text \<open>\<open>g[y][x] = v\<close>: writes the row array in place; a missing row throws a TypeError.\<close>

definition set_cell :: "ref list \<Rightarrow> nat \<Rightarrow> nat \<Rightarrow> jsval \<Rightarrow> heap \<Rightarrow> error + heap" where
  "set_cell g y x v h =
     (if y < length g
      then Inr (h\<lparr>store := (store h)((g ! y) := array_set (store h (g ! y)) x v)\<rparr>)
      else Inl TypeError)"

text \<open>
  \<open>new Array(n).fill(v)\<close>: a new array of \<open>n\<close> elements \<open>v\<close>; \<open>new Array\<close> throws a
  RangeError ("Invalid array length") for a negative length and for one of \<open>2^32\<close> or more.
\<close>

definition new_Array_fill :: "int \<Rightarrow> jsval \<Rightarrow> heap \<Rightarrow> error + (ref \<times> heap)" where
  "new_Array_fill n v h =
     (if n < 0 \<or> 4294967296 \<le> n then Inl RangeError
      else Inr (fresh h,
                h\<lparr>store := (store h)(fresh h := replicate (nat n) v),
                  fresh := Suc (fresh h)\<rparr>))"

text \<open>
  The remainder \<open>a % b\<close> of JavaScript on integers: its sign is the dividend's, and a zero
  divisor gives \<open>NaN\<close>.
\<close>

definition js_rem :: "int \<Rightarrow> int \<Rightarrow> jsval" where
  "js_rem a b = (if b = 0 then NaN else Num (sgn a * (\<bar>a\<bar> mod \<bar>b\<bar>)))"

text \<open>\<open>count += v\<close> on a number \<open>count\<close>: anything but two integers gives \<open>NaN\<close>.\<close>

definition js_add :: "jsval \<Rightarrow> jsval \<Rightarrow> jsval" where
  "js_add a b = (case (a, b) of (Num m, Num n) \<Rightarrow> Num (m + n) | _ \<Rightarrow> NaN)"

subsection \<open>Construction, \<open>createEmpty\<close>, \<open>clear\<close>\<close>

text \<open>
  \<open>createEmpty\<close> (lines 19-25). The loop assigns \<open>g[y]\<close> with \<open>g\<close> holding exactly \<open>y\<close>
  rows, so each assignment appends the row.
\<close>

function createEmpty_loop :: "Life \<Rightarrow> nat \<Rightarrow> ref list \<Rightarrow> heap \<Rightarrow> error + (ref list \<times> heap)" where
  "createEmpty_loop this y g h =
     (if int y < height this then
        (case new_Array_fill (width this) (Num 0) h of
           Inl e \<Rightarrow> Inl e
         | Inr (r, h') \<Rightarrow> createEmpty_loop this (Suc y) (g @ [r]) h')
      else Inr (g, h))"
  by pat_completeness auto
termination
  by (relation "measure (\<lambda>(this, y, g, h). nat (height this) - y)") auto

declare createEmpty_loop.simps [simp del]

definition createEmpty :: "Life \<Rightarrow> heap \<Rightarrow> error + (ref list \<times> heap)" where
  "createEmpty this h = createEmpty_loop this 0 [] h"

text \<open>The constructor (lines 12-17): no check of the dimensions; it calls \<open>createEmpty\<close>.\<close>

definition new_Life :: "int \<Rightarrow> int \<Rightarrow> bool \<Rightarrow> heap \<Rightarrow> error + (Life \<times> heap)" where
  "new_Life w ht wr h =
     (let this = \<lparr>width = w, height = ht, cells = [], wrap = wr\<rparr>
      in case createEmpty this h of
           Inl e \<Rightarrow> Inl e
         | Inr (g, h') \<Rightarrow> Inr (this\<lparr>cells := g\<rparr>, h'))"

text \<open>\<open>clear\<close> (lines 35-37) replaces the grid by a new empty one.\<close>

definition clear :: "Life \<Rightarrow> heap \<Rightarrow> error + (Life \<times> heap)" where
  "clear this h =
     (case createEmpty this h of
        Inl e \<Rightarrow> Inl e
      | Inr (g, h') \<Rightarrow> Inr (this\<lparr>cells := g\<rparr>, h'))"

subsection \<open>\<open>randomize\<close>\<close>

text \<open>
  \<open>randomize\<close> (lines 27-33) writes every cell of the grid in place. \<open>rnd k\<close> is the value
  of the \<open>k\<close>-th call of \<open>Math.random()\<close>; the loops return the number of draws used.
\<close>

function randomize_row ::
  "Life \<Rightarrow> real \<Rightarrow> (nat \<Rightarrow> real) \<Rightarrow> nat \<Rightarrow> nat \<Rightarrow> nat \<Rightarrow> heap \<Rightarrow> error + (nat \<times> heap)" where
  "randomize_row this prob rnd y x k h =
     (if int x < width this then
        (case set_cell (cells this) y x (if rnd k < prob then Num 1 else Num 0) h of
           Inl e \<Rightarrow> Inl e
         | Inr h' \<Rightarrow> randomize_row this prob rnd y (Suc x) (Suc k) h')
      else Inr (k, h))"
  by pat_completeness auto
termination
  by (relation "measure (\<lambda>(this, prob, rnd, y, x, k, h). nat (width this) - x)") auto

declare randomize_row.simps [simp del]

function randomize_rows ::
  "Life \<Rightarrow> real \<Rightarrow> (nat \<Rightarrow> real) \<Rightarrow> nat \<Rightarrow> nat \<Rightarrow> heap \<Rightarrow> error + (nat \<times> heap)" where
  "randomize_rows this prob rnd y k h =
     (if int y < height this then
        (case randomize_row this prob rnd y 0 k h of
           Inl e \<Rightarrow> Inl e
         | Inr (k', h') \<Rightarrow> randomize_rows this prob rnd (Suc y) k' h')
      else Inr (k, h))"
  by pat_completeness auto
termination
  by (relation "measure (\<lambda>(this, prob, rnd, y, k, h). nat (height this) - y)") auto

declare randomize_rows.simps [simp del]

definition randomize :: "Life \<Rightarrow> real \<Rightarrow> (nat \<Rightarrow> real) \<Rightarrow> heap \<Rightarrow> error + heap" where
  "randomize this prob rnd h =
     (case randomize_rows this prob rnd 0 0 h of
        Inl e \<Rightarrow> Inl e
      | Inr (k, h') \<Rightarrow> Inr h')"

subsection \<open>Counting neighbours\<close>

definition inBounds :: "Life \<Rightarrow> int \<Rightarrow> int \<Rightarrow> bool" where
  "inBounds this x y \<longleftrightarrow> x \<ge> 0 \<and> x < width this \<and> y \<ge> 0 \<and> y < height this"

text \<open>\<open>getWrapped\<close> (lines 47-51): the column and the row a coordinate wraps to.\<close>

definition wrapped_x :: "Life \<Rightarrow> int \<Rightarrow> jsval" where
  "wrapped_x this x = js_rem (x + width this) (width this)"

definition wrapped_y :: "Life \<Rightarrow> int \<Rightarrow> jsval" where
  "wrapped_y this y = js_rem (y + height this) (height this)"

definition getWrapped :: "Life \<Rightarrow> heap \<Rightarrow> int \<Rightarrow> int \<Rightarrow> error + jsval" where
  "getWrapped this h x y =
     (let wx = wrapped_x this x;
          wy = wrapped_y this y
      in get_cell (cells this) h wy wx)"

text \<open>
  \<open>countNeighbors\<close> (lines 53-68). \<open>for_each\<close> runs a loop body over the values of the
  loop variable, in order, and stops at the first exception; both loops of
  \<open>countNeighbors\<close> run over \<open>-1, 0, 1\<close>. \<open>neighbor_step\<close> is the body of the inner loop.
\<close>

fun for_each :: "('i \<Rightarrow> 's \<Rightarrow> error + 's) \<Rightarrow> 'i list \<Rightarrow> 's \<Rightarrow> error + 's" where
  "for_each body [] s = Inr s"
| "for_each body (i # is) s =
     (case body i s of Inl e \<Rightarrow> Inl e | Inr s' \<Rightarrow> for_each body is s')"

definition neighbor_step ::
  "Life \<Rightarrow> heap \<Rightarrow> int \<Rightarrow> int \<Rightarrow> int \<Rightarrow> int \<Rightarrow> jsval \<Rightarrow> error + jsval" where
  "neighbor_step this h x y dy dx count =
     (if dx = 0 \<and> dy = 0 then Inr count
      else
        let nx = x + dx;
            ny = y + dy
        in if wrap this then
             (case getWrapped this h nx ny of
                Inl e \<Rightarrow> Inl e
              | Inr v \<Rightarrow> Inr (js_add count v))
           else if inBounds this nx ny then
             (case get_cell (cells this) h (Num ny) (Num nx) of
                Inl e \<Rightarrow> Inl e
              | Inr v \<Rightarrow> Inr (js_add count v))
           else Inr count)"

definition countNeighbors :: "Life \<Rightarrow> heap \<Rightarrow> int \<Rightarrow> int \<Rightarrow> error + jsval" where
  "countNeighbors this h x y =
     for_each (\<lambda>dy. for_each (\<lambda>dx. neighbor_step this h x y dy dx) [-1, 0, 1])
       [-1, 0, 1] (Num 0)"

subsection \<open>\<open>nextGeneration\<close>\<close>

text \<open>The rule of lines 76-84: the next state of a cell of value \<open>c\<close> with count \<open>n\<close>.\<close>

definition next_state :: "jsval \<Rightarrow> jsval \<Rightarrow> int" where
  "next_state c n =
     (if c = Num 1 then (if n = Num 2 \<or> n = Num 3 then 1 else 0)
      else (if n = Num 3 then 1 else 0))"

text \<open>
  The sweep of lines 73-88: it reads \<open>this.cells\<close>, writes \<open>newCells\<close> and adds up the
  population.
\<close>

function nextGeneration_row ::
  "Life \<Rightarrow> ref list \<Rightarrow> nat \<Rightarrow> nat \<Rightarrow> int \<Rightarrow> heap \<Rightarrow> error + (int \<times> heap)" where
  "nextGeneration_row this newCells y x population h =
     (if int x < width this then
        (case countNeighbors this h (int x) (int y) of
           Inl e \<Rightarrow> Inl e
         | Inr n \<Rightarrow>
             (case get_cell (cells this) h (Num (int y)) (Num (int x)) of
                Inl e \<Rightarrow> Inl e
              | Inr c \<Rightarrow>
                  (let next = next_state c n
                   in case set_cell newCells y x (Num next) h of
                        Inl e \<Rightarrow> Inl e
                      | Inr h' \<Rightarrow>
                          nextGeneration_row this newCells y (Suc x) (population + next) h')))
      else Inr (population, h))"
  by pat_completeness auto
termination
  by (relation "measure (\<lambda>(this, newCells, y, x, population, h). nat (width this) - x)") auto

declare nextGeneration_row.simps [simp del]

function nextGeneration_rows ::
  "Life \<Rightarrow> ref list \<Rightarrow> nat \<Rightarrow> int \<Rightarrow> heap \<Rightarrow> error + (int \<times> heap)" where
  "nextGeneration_rows this newCells y population h =
     (if int y < height this then
        (case nextGeneration_row this newCells y 0 population h of
           Inl e \<Rightarrow> Inl e
         | Inr (population', h') \<Rightarrow> nextGeneration_rows this newCells (Suc y) population' h')
      else Inr (population, h))"
  by pat_completeness auto
termination
  by (relation "measure (\<lambda>(this, newCells, y, population, h). nat (height this) - y)") auto

declare nextGeneration_rows.simps [simp del]

text \<open>
  \<open>nextGeneration\<close> (lines 70-91) returns \<open>{ newCells, population }\<close>; the model returns
  them with the engine, whose \<open>cells\<close> is now \<open>newCells\<close>, and the store.
\<close>

definition nextGeneration :: "Life \<Rightarrow> heap \<Rightarrow> error + ((ref list \<times> int) \<times> Life \<times> heap)" where
  "nextGeneration this h =
     (case createEmpty this h of
        Inl e \<Rightarrow> Inl e
      | Inr (newCells, h1) \<Rightarrow>
          (case nextGeneration_rows this newCells 0 0 h1 of
             Inl e \<Rightarrow> Inl e
           | Inr (population, h2) \<Rightarrow>
               Inr ((newCells, population), this\<lparr>cells := newCells\<rparr>, h2)))"

subsection \<open>Toggling a cell\<close>

text \<open>
  \<open>xyFromEvent\<close> (lines 168-176) computes a cell coordinate from the pointer position and
  returns \<open>null\<close> when it is outside the grid; \<open>x\<close> and \<open>y\<close> here are the floored numbers
  of lines 172-173, taken to be integers (the scaling of pixels by a canvas that has an
  extent). The click handler (lines 266-273) returns at once on \<open>null\<close> and otherwise
  flips \<open>cells[y][x]\<close> in place; \<open>toggle\<close> is the handler, given these numbers.
\<close>

definition xyFromEvent :: "Life \<Rightarrow> int \<Rightarrow> int \<Rightarrow> (int \<times> int) option" where
  "xyFromEvent this x y =
     (if x < 0 \<or> x \<ge> width this \<or> y < 0 \<or> y \<ge> height this then None else Some (x, y))"

definition toggle :: "Life \<Rightarrow> heap \<Rightarrow> int \<Rightarrow> int \<Rightarrow> error + heap" where
  "toggle this h x y =
     (case xyFromEvent this x y of
        None \<Rightarrow> Inr h
      | Some (x, y) \<Rightarrow>
          (case get_cell (cells this) h (Num y) (Num x) of
             Inl e \<Rightarrow> Inl e
           | Inr c \<Rightarrow> set_cell (cells this) (nat y) (nat x) (if c = Num 1 then Num 0 else Num 1) h))"

subsection \<open>Observing a grid\<close>

text \<open>
  The contents of a grid \<open>g\<close> in a store: its rows, top to bottom. \<open>cell_at\<close> reads the
  cell of column \<open>x\<close> and row \<open>y\<close> of such a snapshot (\<open>undefined\<close> outside it); a cell is
  ALIVE when it is \<open>1\<close> and DEAD when it is \<open>0\<close>.
\<close>

definition snapshot :: "heap \<Rightarrow> ref list \<Rightarrow> jsval list list" where
  "snapshot h g = map (store h) g"

definition cell_at :: "jsval list list \<Rightarrow> int \<Rightarrow> int \<Rightarrow> jsval" where
  "cell_at G x y =
     (if 0 \<le> y \<and> y < int (length G) then js_index (G ! nat y) (Num x) else Undefined)"

definition population_of :: "jsval list list \<Rightarrow> int" where
  "population_of G = (\<Sum>row\<leftarrow>G. int (length (filter (\<lambda>c. c = Num 1) row)))"

definition alive_cells :: "jsval list list \<Rightarrow> (int \<times> int) list" where
  "alive_cells G =
     concat (map (\<lambda>y. map (\<lambda>x. (int x, int y))
                          (filter (\<lambda>x. G ! y ! x = Num 1) [0..<length (G ! y)]))
                 [0..<length G])"

definition has_dims :: "jsval list list \<Rightarrow> int \<Rightarrow> int \<Rightarrow> bool" where
  "has_dims G w ht \<longleftrightarrow> int (length G) = ht \<and> (\<forall>row\<in>set G. int (length row) = w)"

text \<open>
  The state of an engine that the constructor builds and every operation keeps: \<open>cells\<close>
  has \<open>height\<close> rows (none when \<open>height \<le> 0\<close>), the rows are different arrays, allocated in
  the store, each of \<open>width\<close> cells (so \<open>width\<close> is an array length, below \<open>2^32\<close>), and
  every cell is \<open>0\<close> or \<open>1\<close>. Lemma \<open>valid_engine_kept\<close> below shows that it is an
  invariant.
\<close>

definition valid_engine :: "Life \<Rightarrow> heap \<Rightarrow> bool" where
  "valid_engine L h \<longleftrightarrow>
     int (length (cells L)) = max 0 (height L) \<and> distinct (cells L) \<and>
     (\<forall>r\<in>set (cells L).
        r < fresh h \<and> int (length (store h r)) = width L \<and> width L < 4294967296 \<and>
        (\<forall>c\<in>set (store h r). c = Num 0 \<or> c = Num 1))"

subsection \<open>The neighbour count in the specification's words\<close>

text \<open>
  The eight positions of the Moore neighbourhood, as offsets \<open>(dx, dy)\<close>. A position is
  alive, with wrap enabled, when the cell at its coordinates reduced modulo the width and
  the height is ALIVE; with wrap disabled, when it lies inside the grid and its cell is
  ALIVE. \<open>moore_count\<close> is the number of alive positions.
\<close>

definition moore_offsets :: "(int \<times> int) list" where
  "moore_offsets = [(-1, -1), (0, -1), (1, -1), (-1, 0), (1, 0), (-1, 1), (0, 1), (1, 1)]"

definition neighbor_alive :: "Life \<Rightarrow> heap \<Rightarrow> int \<Rightarrow> int \<Rightarrow> int \<times> int \<Rightarrow> bool" where
  "neighbor_alive L h x y d =
     (case d of (dx, dy) \<Rightarrow>
        if wrap L
        then cell_at (snapshot h (cells L)) ((x + dx) mod width L) ((y + dy) mod height L) = Num 1
        else 0 \<le> x + dx \<and> x + dx < width L \<and> 0 \<le> y + dy \<and> y + dy < height L \<and>
             cell_at (snapshot h (cells L)) (x + dx) (y + dy) = Num 1)"

definition moore_count :: "Life \<Rightarrow> heap \<Rightarrow> int \<Rightarrow> int \<Rightarrow> int" where
  "moore_count L h x y = int (length (filter (neighbor_alive L h x y) moore_offsets))"

text \<open>The next state of the cell \<open>(x, y)\<close>, computed on the grid before the step.\<close>

definition next_cell :: "Life \<Rightarrow> heap \<Rightarrow> int \<Rightarrow> int \<Rightarrow> int" where
  "next_cell L h x y =
     next_state (cell_at (snapshot h (cells L)) x y) (Num (moore_count L h x y))"

text \<open>
  The rule of the game on a set \<open>A\<close> of alive coordinates of the unbounded plane: whether
  \<open>(x, y)\<close> is alive in the next generation.
\<close>

definition life_rule :: "(int \<times> int) set \<Rightarrow> int \<Rightarrow> int \<Rightarrow> bool" where
  "life_rule A x y =
     (let n = length (filter (\<lambda>d. (x + fst d, y + snd d) \<in> A) moore_offsets)
      in if (x, y) \<in> A then n = 2 \<or> n = 3 else n = 3)"

text \<open>The value \<open>randomize\<close> writes for the \<open>k\<close>-th draw.\<close>

definition draw_cell :: "real \<Rightarrow> (nat \<Rightarrow> real) \<Rightarrow> nat \<Rightarrow> jsval" where
  "draw_cell prob rnd k = (if rnd k < prob then Num 1 else Num 0)"

text \<open>The value the click handler writes over a cell of value \<open>c\<close>.\<close>

definition flip_cell :: "jsval \<Rightarrow> jsval" where
  "flip_cell c = (if c = Num 1 then Num 0 else Num 1)"

subsection \<open>Concrete engines\<close>

text \<open>
  An engine over a grid given by its rows of numbers, in a store that holds these rows
  and nothing else.
\<close>

definition grid_heap :: "int list list \<Rightarrow> heap" where
  "grid_heap rows =
     \<lparr>store = (\<lambda>r. if r < length rows then map Num (rows ! r) else []), fresh = length rows\<rparr>"

definition grid_engine :: "int list list \<Rightarrow> int \<Rightarrow> int \<Rightarrow> bool \<Rightarrow> Life" where
  "grid_engine rows w ht wr = \<lparr>width = w, height = ht, cells = [0..<length rows], wrap = wr\<rparr>"

definition corner3 :: "int list list" where
  "corner3 = [[1, 0, 0], [0, 0, 0], [0, 0, 0]]"

definition blinker5 :: "int list list" where
  "blinker5 = [[0, 0, 0, 0, 0], [0, 0, 0, 0, 0], [0, 1, 1, 1, 0], [0, 0, 0, 0, 0], [0, 0, 0, 0, 0]]"

definition single1 :: "int list list" where
  "single1 = [[1]]"

definition pair32 :: "int list list" where
  "pair32 = [[0, 0, 0], [0, 1, 0]]"

definition empty_heap :: heap where
  "empty_heap = \<lparr>store = (\<lambda>r. []), fresh = 0\<rparr>"

section \<open>Auxiliary lemmas\<close>

subsection \<open>\<open>createEmpty\<close> allocates new rows\<close>

text \<open>
  The rows \<open>createEmpty\<close> returns are the references from \<open>fresh h\<close> on: no array that
  existed before is among them, and none is changed.
\<close>

lemma new_Array_fill_ok:
  "0 \<le> n \<Longrightarrow> n < 4294967296 \<Longrightarrow>
   new_Array_fill n v h =
     Inr (fresh h, h\<lparr>store := (store h)(fresh h := replicate (nat n) v), fresh := Suc (fresh h)\<rparr>)"
  by (simp add: new_Array_fill_def)

lemma createEmpty_loop_done:
  "height this \<le> int y \<Longrightarrow> createEmpty_loop this y g h = Inr (g, h)"
  by (simp add: createEmpty_loop.simps)

lemma createEmpty_loop_ok:
  assumes "0 \<le> width this" "width this < 4294967296"
  shows "\<exists>h'. createEmpty_loop this y g h =
             Inr (g @ [fresh h ..< fresh h + (nat (height this) - y)], h') \<and>
           fresh h' = fresh h + (nat (height this) - y) \<and>
           (\<forall>r. store h' r =
              (if fresh h \<le> r \<and> r < fresh h + (nat (height this) - y)
               then replicate (nat (width this)) (Num 0) else store h r))"
proof (induction "nat (height this) - y" arbitrary: y g h)
  case 0
  then have "height this \<le> int y" by linarith
  with 0 show ?case by (auto simp: createEmpty_loop_done)
next
  case (Suc k)
  then have lt: "int y < height this" by linarith
  define h1 where "h1 = h\<lparr>store := (store h)(fresh h := replicate (nat (width this)) (Num 0)),
                          fresh := Suc (fresh h)\<rparr>"
  have step: "createEmpty_loop this y g h = createEmpty_loop this (Suc y) (g @ [fresh h]) h1"
    using lt assms by (subst createEmpty_loop.simps) (simp add: new_Array_fill_ok h1_def)
  define m where "m = nat (height this) - Suc y"
  have k: "k = nat (height this) - Suc y" using Suc(2) by linarith
  have n: "nat (height this) - y = Suc m" using lt unfolding m_def by linarith
  from Suc(1)[OF k, of "g @ [fresh h]" h1] obtain h' where
    r: "createEmpty_loop this (Suc y) (g @ [fresh h]) h1 =
          Inr ((g @ [fresh h]) @ [fresh h1 ..< fresh h1 + m], h')"
    and f: "fresh h' = fresh h1 + m"
    and s: "\<forall>r. store h' r =
              (if fresh h1 \<le> r \<and> r < fresh h1 + m
               then replicate (nat (width this)) (Num 0) else store h1 r)"
    unfolding m_def by blast
  have l: "[fresh h ..< fresh h + Suc m] = fresh h # [Suc (fresh h) ..< Suc (fresh h) + m]"
    by (simp add: upt_conv_Cons)
  have f1: "fresh h1 = Suc (fresh h)" by (simp add: h1_def)
  have s1: "store h1 = (store h)(fresh h := replicate (nat (width this)) (Num 0))"
    by (simp add: h1_def)
  show ?case
    unfolding n step
    apply (rule exI[of _ h'])
    using r f s unfolding f1 s1 l by auto
qed

subsection \<open>Reads depend only on the rows of the grid\<close>

lemma get_cell_cong:
  "\<forall>r\<in>set g. store h r = store h' r \<Longrightarrow> get_cell g h y x = get_cell g h' y x"
  by (cases y) (auto simp: get_cell_def)

lemma neighbor_step_cong:
  assumes "\<forall>r\<in>set (cells L). store h r = store h' r"
  shows "neighbor_step L h = neighbor_step L h'"
proof -
  have e: "get_cell (cells L) h = get_cell (cells L) h'"
    by (intro ext) (rule get_cell_cong[OF assms])
  show ?thesis
    by (intro ext) (simp only: neighbor_step_def getWrapped_def e)
qed

lemma countNeighbors_cong:
  assumes "\<forall>r\<in>set (cells L). store h r = store h' r"
  shows "countNeighbors L h x y = countNeighbors L h' x y"
  unfolding countNeighbors_def neighbor_step_cong[OF assms] by (rule refl)

subsection \<open>The sweep writes the rows of \<open>newCells\<close> only\<close>

text \<open>
  The hypotheses of the two loop lemmas say that \<open>newCells\<close> shares no row with
  \<open>this.cells\<close>; \<open>n\<close> is the count \<open>countNeighbors\<close> gives on the store at the start of
  the loop, and the writes of the loop do not change it.
\<close>

lemma set_cell_ok:
  "y < length g \<Longrightarrow> x < length (store h (g ! y)) \<Longrightarrow>
   set_cell g y x v h = Inr (h\<lparr>store := (store h)((g ! y) := (store h (g ! y))[x := v])\<rparr>)"
  by (simp add: set_cell_def array_set_def)

lemma get_cell_ok:
  "y < length g \<Longrightarrow> get_cell g h (Num (int y)) x = Inr (js_index (store h (g ! y)) x)"
  by (simp add: get_cell_def)

lemma nextGeneration_row_ok:
  assumes y: "y < length g" "y < length (cells L)" and fr: "g ! y \<notin> set (cells L)"
    and len: "length (store h (g ! y)) = nat (width L)"
    and cn: "\<forall>i. int i < width L \<longrightarrow> countNeighbors L h (int i) (int y) = Inr (n i)"
    and x: "x \<le> nat (width L)"
  shows "\<exists>h'. nextGeneration_row L g y x pop h =
            Inr (pop + (\<Sum>i = x..<nat (width L).
                          next_state (js_index (store h (cells L ! y)) (Num (int i))) (n i)), h') \<and>
          fresh h' = fresh h \<and>
          (\<forall>r. r \<noteq> g ! y \<longrightarrow> store h' r = store h r) \<and>
          store h' (g ! y) =
            take x (store h (g ! y)) @
            map (\<lambda>i. Num (next_state (js_index (store h (cells L ! y)) (Num (int i))) (n i)))
              [x..<nat (width L)]"
  using len cn x
proof (induction "nat (width L) - x" arbitrary: x pop h)
  case 0
  then have "\<not> int x < width L" "x = nat (width L)" by linarith+
  then show ?case using 0 by (subst nextGeneration_row.simps) auto
next
  case (Suc k)
  then have lt: "int x < width L" "x < nat (width L)" by linarith+
  define v where "v = next_state (js_index (store h (cells L ! y)) (Num (int x))) (n x)"
  define h1 where "h1 = h\<lparr>store := (store h)((g ! y) := (store h (g ! y))[x := Num v])\<rparr>"
  have step: "nextGeneration_row L g y x pop h = nextGeneration_row L g y (Suc x) (pop + v) h1"
    using lt y Suc.prems
    by (subst nextGeneration_row.simps)
       (simp add: get_cell_ok set_cell_ok v_def h1_def Let_def)
  have same: "\<forall>r\<in>set (cells L). store h1 r = store h r"
    using fr by (auto simp: h1_def)
  have old: "store h1 (cells L ! y) = store h (cells L ! y)"
    using same y by simp
  have cn1: "\<forall>i. int i < width L \<longrightarrow> countNeighbors L h1 (int i) (int y) = Inr (n i)"
    using Suc.prems(2) countNeighbors_cong[of L h1 h] same by simp
  have len1: "length (store h1 (g ! y)) = nat (width L)"
    using Suc.prems(1) by (simp add: h1_def)
  have k: "k = nat (width L) - Suc x" using Suc(2) by linarith
  have sx: "Suc x \<le> nat (width L)" using lt by linarith
  from Suc(1)[OF k len1 cn1 sx, of "pop + v"] obtain h' where
    r: "nextGeneration_row L g y (Suc x) (pop + v) h1 =
          Inr (pop + v + (\<Sum>i = Suc x..<nat (width L).
                 next_state (js_index (store h1 (cells L ! y)) (Num (int i))) (n i)), h')"
    and f: "fresh h' = fresh h1"
    and o: "\<forall>r. r \<noteq> g ! y \<longrightarrow> store h' r = store h1 r"
    and s: "store h' (g ! y) =
            take (Suc x) (store h1 (g ! y)) @
            map (\<lambda>i. Num (next_state (js_index (store h1 (cells L ! y)) (Num (int i))) (n i)))
              [Suc x..<nat (width L)]"
    by blast
  have sum: "(\<Sum>i = x..<nat (width L).
                next_state (js_index (store h (cells L ! y)) (Num (int i))) (n i)) =
             v + (\<Sum>i = Suc x..<nat (width L).
                next_state (js_index (store h (cells L ! y)) (Num (int i))) (n i))"
    using lt by (simp add: sum.atLeast_Suc_lessThan v_def)
  have tk: "take (Suc x) (store h1 (g ! y)) = take x (store h (g ! y)) @ [Num v]"
    using lt Suc.prems(1) by (simp add: h1_def take_Suc_conv_app_nth)
  have up: "[x..<nat (width L)] = x # [Suc x..<nat (width L)]"
    using lt by (simp add: upt_conv_Cons)
  show ?case
    unfolding step
    apply (rule exI[of _ h'])
    using r f o s unfolding old sum tk up
    by (auto simp: h1_def v_def)
qed

lemma nextGeneration_rows_ok:
  assumes lg: "length g = nat (height L)" and lc: "length (cells L) = nat (height L)"
    and dg: "distinct g" and fr: "set g \<inter> set (cells L) = {}"
    and len: "\<forall>r\<in>set g. length (store h r) = nat (width L)"
    and old: "\<forall>j<nat (height L). store h (cells L ! j) = old j"
    and cn: "\<forall>i j. int i < width L \<and> int j < height L \<longrightarrow>
                countNeighbors L h (int i) (int j) = Inr (n i j)"
    and y: "y \<le> nat (height L)"
  shows "\<exists>h'. nextGeneration_rows L g y pop h =
            Inr (pop + (\<Sum>j = y..<nat (height L). \<Sum>i = 0..<nat (width L).
                          next_state (js_index (old j) (Num (int i))) (n i j)), h') \<and>
          fresh h' = fresh h \<and>
          (\<forall>r. r \<notin> set (drop y g) \<longrightarrow> store h' r = store h r) \<and>
          (\<forall>j. y \<le> j \<and> j < nat (height L) \<longrightarrow>
             store h' (g ! j) =
               map (\<lambda>i. Num (next_state (js_index (old j) (Num (int i))) (n i j)))
                 [0..<nat (width L)])"
  using len old cn y
proof (induction "nat (height L) - y" arbitrary: y pop h)
  case 0
  then have "\<not> int y < height L" "y = nat (height L)" by linarith+
  then show ?case using lg by (subst nextGeneration_rows.simps) auto
next
  case (Suc k)
  then have lt: "int y < height L" "y < nat (height L)" by linarith+
  have yg: "y < length g" "y < length (cells L)" using lt lg lc by simp_all
  have gy: "g ! y \<in> set g" using yg by simp
  have fry: "g ! y \<notin> set (cells L)" using gy fr by blast
  have leny: "length (store h (g ! y)) = nat (width L)" using Suc.prems(1) gy by blast
  have cny: "\<forall>i. int i < width L \<longrightarrow> countNeighbors L h (int i) (int y) = Inr (n i y)"
    using Suc.prems(3) lt by blast
  have oldy: "store h (cells L ! y) = old y" using Suc.prems(2) lt by blast
  define p1 where "p1 = pop + (\<Sum>i = 0..<nat (width L).
                     next_state (js_index (old y) (Num (int i))) (n i y))"
  from nextGeneration_row_ok[OF yg fry leny cny, of 0 pop] obtain h1 where
    r1: "nextGeneration_row L g y 0 pop h = Inr (p1, h1)"
    and f1: "fresh h1 = fresh h"
    and o1: "\<forall>r. r \<noteq> g ! y \<longrightarrow> store h1 r = store h r"
    and s1: "store h1 (g ! y) =
               map (\<lambda>i. Num (next_state (js_index (old y) (Num (int i))) (n i y)))
                 [0..<nat (width L)]"
    unfolding oldy p1_def by auto
  have step: "nextGeneration_rows L g y pop h = nextGeneration_rows L g (Suc y) p1 h1"
    using lt r1 by (subst nextGeneration_rows.simps) simp
  have same: "\<forall>r\<in>set (cells L). store h1 r = store h r"
    using o1 fry by metis
  have len1: "\<forall>r\<in>set g. length (store h1 r) = nat (width L)"
  proof
    fix r assume "r \<in> set g"
    then show "length (store h1 r) = nat (width L)"
      using Suc.prems(1) o1 s1 by (cases "r = g ! y") auto
  qed
  have old1: "\<forall>j<nat (height L). store h1 (cells L ! j) = old j"
    using Suc.prems(2) same lc by simp
  have cn1: "\<forall>i j. int i < width L \<and> int j < height L \<longrightarrow>
                countNeighbors L h1 (int i) (int j) = Inr (n i j)"
    using Suc.prems(3) countNeighbors_cong[of L h1 h] same by simp
  have k: "k = nat (height L) - Suc y" using Suc(2) by linarith
  have sy: "Suc y \<le> nat (height L)" using lt by linarith
  from Suc(1)[OF k len1 old1 cn1 sy, of p1] obtain h' where
    r: "nextGeneration_rows L g (Suc y) p1 h1 =
            Inr (p1 + (\<Sum>j = Suc y..<nat (height L). \<Sum>i = 0..<nat (width L).
                          next_state (js_index (old j) (Num (int i))) (n i j)), h')"
    and f: "fresh h' = fresh h1"
    and o: "\<forall>r. r \<notin> set (drop (Suc y) g) \<longrightarrow> store h' r = store h1 r"
    and s: "\<forall>j. Suc y \<le> j \<and> j < nat (height L) \<longrightarrow>
             store h' (g ! j) =
               map (\<lambda>i. Num (next_state (js_index (old j) (Num (int i))) (n i j)))
                 [0..<nat (width L)]"
    by blast
  have dr: "drop y g = g ! y # drop (Suc y) g"
    using yg by (simp add: Cons_nth_drop_Suc)
  have notin: "g ! y \<notin> set (drop (Suc y) g)"
    using dg dr by (metis distinct.simps(2) distinct_drop)
  have sum: "(\<Sum>j = y..<nat (height L). \<Sum>i = 0..<nat (width L).
                 next_state (js_index (old j) (Num (int i))) (n i j)) =
             (\<Sum>i = 0..<nat (width L). next_state (js_index (old y) (Num (int i))) (n i y)) +
             (\<Sum>j = Suc y..<nat (height L). \<Sum>i = 0..<nat (width L).
                 next_state (js_index (old j) (Num (int i))) (n i j))"
    using lt by (simp add: sum.atLeast_Suc_lessThan)
  have c1: "nextGeneration_rows L g y pop h =
            Inr (pop + (\<Sum>j = y..<nat (height L). \<Sum>i = 0..<nat (width L).
                          next_state (js_index (old j) (Num (int i))) (n i j)), h')"
    using r unfolding step sum p1_def by (simp add: add.assoc)
  have c2: "fresh h' = fresh h" using f f1 by simp
  have c3: "\<forall>r. r \<notin> set (drop y g) \<longrightarrow> store h' r = store h r"
    using o o1 unfolding dr by auto
  have c4: "\<forall>j. y \<le> j \<and> j < nat (height L) \<longrightarrow>
             store h' (g ! j) =
               map (\<lambda>i. Num (next_state (js_index (old j) (Num (int i))) (n i j)))
                 [0..<nat (width L)]"
  proof (intro allI impI)
    fix j assume j: "y \<le> j \<and> j < nat (height L)"
    show "store h' (g ! j) =
               map (\<lambda>i. Num (next_state (js_index (old j) (Num (int i))) (n i j)))
                 [0..<nat (width L)]"
    proof (cases "j = y")
      case True
      then show ?thesis using o notin s1 by simp
    next
      case False
      then show ?thesis using s j by simp
    qed
  qed
  show ?case using c1 c2 c3 c4 by blast
qed

subsection \<open>\<open>countNeighbors\<close> on a valid engine\<close>

lemma valid_cell:
  assumes "valid_engine L h" "0 \<le> x" "x < width L" "0 \<le> y" "y < height L"
  shows "get_cell (cells L) h (Num y) (Num x) = Inr (cell_at (snapshot h (cells L)) x y)"
    and "cell_at (snapshot h (cells L)) x y = Num 0 \<or> cell_at (snapshot h (cells L)) x y = Num 1"
proof -
  have ly: "nat y < length (cells L)" using assms by (simp add: valid_engine_def) linarith
  then have m: "cells L ! nat y \<in> set (cells L)" by simp
  have lx: "int (length (store h (cells L ! nat y))) = width L"
    and v: "\<forall>c\<in>set (store h (cells L ! nat y)). c = Num 0 \<or> c = Num 1"
    using assms(1) m by (auto simp: valid_engine_def)
  have nx: "nat x < length (store h (cells L ! nat y))" using lx assms by linarith
  have iy: "y < int (length (cells L))" using ly assms by linarith
  show "get_cell (cells L) h (Num y) (Num x) = Inr (cell_at (snapshot h (cells L)) x y)"
    using ly iy assms by (simp add: get_cell_def cell_at_def snapshot_def)
  have "cell_at (snapshot h (cells L)) x y = store h (cells L ! nat y) ! nat x"
    using ly iy lx assms by (simp add: cell_at_def snapshot_def js_index_def)
  then show "cell_at (snapshot h (cells L)) x y = Num 0 \<or> cell_at (snapshot h (cells L)) x y = Num 1"
    using v nx nth_mem by metis
qed

lemma js_rem_wrap:
  assumes "0 < w" "-1 \<le> a"
  shows "js_rem (a + w) w = Num (a mod w)"
proof -
  have m: "(a + w) mod w = a mod w" by simp
  have "sgn (a + w) * (\<bar>a + w\<bar> mod \<bar>w\<bar>) = (a + w) mod w"
    using assms by (cases "a + w = 0") (simp_all add: sgn_if)
  then show ?thesis using assms m by (simp add: js_rem_def)
qed

lemma neighbor_step_valid:
  assumes v: "valid_engine L h" and b: "0 \<le> x" "x < width L" "0 \<le> y" "y < height L"
    and d: "dx \<in> {-1, 0, 1}" "dy \<in> {-1, 0, 1}" "\<not> (dx = 0 \<and> dy = 0)"
  shows "neighbor_step L h x y dy dx (Num c) =
           Inr (Num (c + (if neighbor_alive L h x y (dx, dy) then 1 else 0)))"
proof (cases "wrap L")
  case True
  have w: "0 < width L" "0 < height L" using b by linarith+
  have ax: "-1 \<le> x + dx" "-1 \<le> y + dy" using b d by auto
  have wx: "wrapped_x L (x + dx) = Num ((x + dx) mod width L)"
    using js_rem_wrap[OF w(1) ax(1)] by (simp add: wrapped_x_def)
  have wy: "wrapped_y L (y + dy) = Num ((y + dy) mod height L)"
    using js_rem_wrap[OF w(2) ax(2)] by (simp add: wrapped_y_def)
  have r: "0 \<le> (x + dx) mod width L" "(x + dx) mod width L < width L"
          "0 \<le> (y + dy) mod height L" "(y + dy) mod height L < height L"
    using w by simp_all
  note c = valid_cell[OF v r]
  show ?thesis
    using True d(3) c by (auto simp: neighbor_step_def getWrapped_def wx wy neighbor_alive_def js_add_def)
next
  case False
  show ?thesis
  proof (cases "inBounds L (x + dx) (y + dy)")
    case True
    then have r: "0 \<le> x + dx" "x + dx < width L" "0 \<le> y + dy" "y + dy < height L"
      by (simp_all add: inBounds_def)
    note c = valid_cell[OF v r]
    show ?thesis
      using \<open>\<not> wrap L\<close> True d(3) c r
      by (auto simp: neighbor_step_def neighbor_alive_def js_add_def)
  next
    case False
    then show ?thesis
      using \<open>\<not> wrap L\<close> d(3) by (auto simp: neighbor_step_def neighbor_alive_def inBounds_def)
  qed
qed

lemma countNeighbors_valid:
  assumes v: "valid_engine L h" and b: "0 \<le> x" "x < width L" "0 \<le> y" "y < height L"
  shows "countNeighbors L h x y = Inr (Num (moore_count L h x y))"
proof -
  note s = neighbor_step_valid[OF v b]
  have z: "neighbor_step L h x y 0 0 = Inr" by (intro ext) (simp add: neighbor_step_def)
  show ?thesis
    unfolding countNeighbors_def moore_count_def moore_offsets_def
    by (simp add: s z)
qed

subsection \<open>\<open>nextGeneration\<close> on a valid engine\<close>

lemma createEmpty_ok:
  assumes "height L \<le> 0 \<or> (0 \<le> width L \<and> width L < 4294967296)"
  shows "\<exists>h'. createEmpty L h = Inr ([fresh h ..< fresh h + nat (height L)], h') \<and>
           fresh h' = fresh h + nat (height L) \<and>
           (\<forall>r. store h' r =
              (if fresh h \<le> r \<and> r < fresh h + nat (height L)
               then replicate (nat (width L)) (Num 0) else store h r))"
proof (cases "height L \<le> 0")
  case True
  then show ?thesis by (auto simp: createEmpty_def createEmpty_loop_done)
next
  case False
  then have "0 \<le> width L" "width L < 4294967296" using assms by auto
  from createEmpty_loop_ok[OF this, of 0 "[]" h] show ?thesis
    by (simp add: createEmpty_def)
qed

lemma valid_engine_dims:
  assumes "valid_engine L h"
  shows "length (cells L) = nat (height L)"
    and "height L \<le> 0 \<or> (0 \<le> width L \<and> width L < 4294967296)"
    and "\<forall>r\<in>set (cells L). r < fresh h"
proof -
  show l: "length (cells L) = nat (height L)"
    using assms by (simp add: valid_engine_def) linarith
  show "height L \<le> 0 \<or> (0 \<le> width L \<and> width L < 4294967296)"
  proof (cases "height L \<le> 0")
    case False
    then have "cells L \<noteq> []" using l by auto
    then obtain r where "r \<in> set (cells L)" by (cases "cells L") auto
    then have "int (length (store h r)) = width L" "width L < 4294967296"
      using assms by (auto simp: valid_engine_def)
    then show ?thesis by linarith
  qed simp
  show "\<forall>r\<in>set (cells L). r < fresh h"
    using assms by (simp add: valid_engine_def)
qed

lemma nextGeneration_valid:
  assumes v: "valid_engine L h"
  defines "g \<equiv> [fresh h ..< fresh h + nat (height L)]"
  shows "\<exists>pop h'. nextGeneration L h = Inr ((g, pop), L\<lparr>cells := g\<rparr>, h') \<and>
           fresh h' = fresh h + nat (height L) \<and>
           (\<forall>r<fresh h. store h' r = store h r) \<and>
           snapshot h' g =
             map (\<lambda>j. map (\<lambda>i. Num (next_cell L h (int i) (int j))) [0..<nat (width L)])
               [0..<nat (height L)] \<and>
           pop = (\<Sum>j = 0..<nat (height L). \<Sum>i = 0..<nat (width L).
                    next_cell L h (int i) (int j))"
proof -
  note d = valid_engine_dims[OF v]
  from createEmpty_ok[OF d(2), of h] obtain h1 where
    ce: "createEmpty L h = Inr (g, h1)"
    and f1: "fresh h1 = fresh h + nat (height L)"
    and s1: "\<forall>r. store h1 r =
              (if fresh h \<le> r \<and> r < fresh h + nat (height L)
               then replicate (nat (width L)) (Num 0) else store h r)"
    unfolding g_def by blast
  have lg: "length g = nat (height L)" by (simp add: g_def)
  have dg: "distinct g" by (simp add: g_def)
  have fr: "set g \<inter> set (cells L) = {}" using d(3) by (auto simp: g_def)
  have len: "\<forall>r\<in>set g. length (store h1 r) = nat (width L)"
    using s1 by (auto simp: g_def)
  have same: "\<forall>r\<in>set (cells L). store h1 r = store h r"
    using s1 d(3) by auto
  have old: "\<forall>j<nat (height L). store h1 (cells L ! j) = store h (cells L ! j)"
    using same d(1) by simp
  have cn: "\<forall>i j. int i < width L \<and> int j < height L \<longrightarrow>
                countNeighbors L h1 (int i) (int j) = Inr (Num (moore_count L h (int i) (int j)))"
    using countNeighbors_cong[OF same] countNeighbors_valid[OF v] by simp
  from nextGeneration_rows_ok[OF lg d(1) dg fr len old cn, of 0 0] obtain h2 where
    r: "nextGeneration_rows L g 0 0 h1 =
            Inr (0 + (\<Sum>j = 0..<nat (height L). \<Sum>i = 0..<nat (width L).
                   next_state (js_index (store h (cells L ! j)) (Num (int i)))
                     (Num (moore_count L h (int i) (int j)))), h2)"
    and f2: "fresh h2 = fresh h1"
    and o2: "\<forall>r. r \<notin> set (drop 0 g) \<longrightarrow> store h2 r = store h1 r"
    and s2: "\<forall>j. 0 \<le> j \<and> j < nat (height L) \<longrightarrow>
             store h2 (g ! j) =
               map (\<lambda>i. Num (next_state (js_index (store h (cells L ! j)) (Num (int i)))
                               (Num (moore_count L h (int i) (int j)))))
                 [0..<nat (width L)]"
    by auto
  have nc: "next_state (js_index (store h (cells L ! j)) (Num (int i)))
                (Num (moore_count L h (int i) (int j))) = next_cell L h (int i) (int j)"
    if "j < nat (height L)" for i j
  proof -
    have "int j < int (length (cells L))" "j < length (cells L)" using that d(1) by linarith+
    then show ?thesis by (simp add: next_cell_def cell_at_def snapshot_def)
  qed
  have pop: "(\<Sum>j = 0..<nat (height L). \<Sum>i = 0..<nat (width L).
                   next_state (js_index (store h (cells L ! j)) (Num (int i)))
                     (Num (moore_count L h (int i) (int j)))) =
             (\<Sum>j = 0..<nat (height L). \<Sum>i = 0..<nat (width L). next_cell L h (int i) (int j))"
    by (rule sum.cong) (simp_all add: nc)
  have snap: "snapshot h2 g =
             map (\<lambda>j. map (\<lambda>i. Num (next_cell L h (int i) (int j))) [0..<nat (width L)])
               [0..<nat (height L)]"
  proof (rule nth_equalityI)
    show "length (snapshot h2 g) = length (map (\<lambda>j. map (\<lambda>i. Num (next_cell L h (int i) (int j)))
            [0..<nat (width L)]) [0..<nat (height L)])"
      by (simp add: snapshot_def lg)
  next
    fix j assume "j < length (snapshot h2 g)"
    then have j: "j < nat (height L)" by (simp add: snapshot_def lg)
    then show "snapshot h2 g ! j = map (\<lambda>j. map (\<lambda>i. Num (next_cell L h (int i) (int j)))
            [0..<nat (width L)]) [0..<nat (height L)] ! j"
      using s2 lg by (simp add: snapshot_def nc)
  qed
  have keep: "\<forall>r<fresh h. store h2 r = store h r"
    using o2 s1 by (auto simp: g_def)
  have "nextGeneration L h =
          Inr ((g, \<Sum>j = 0..<nat (height L). \<Sum>i = 0..<nat (width L). next_cell L h (int i) (int j)),
               L\<lparr>cells := g\<rparr>, h2)"
    using ce r pop by (simp add: nextGeneration_def)
  then show ?thesis using f1 f2 keep snap by auto
qed

subsection \<open>The loops of \<open>randomize\<close>\<close>

lemma randomize_row_ok:
  assumes y: "y < length (cells L)"
    and len: "length (store h (cells L ! y)) = nat (width L)"
    and x: "x \<le> nat (width L)"
  shows "\<exists>h'. randomize_row L prob rnd y x k h = Inr (k + (nat (width L) - x), h') \<and>
          fresh h' = fresh h \<and>
          (\<forall>r. r \<noteq> cells L ! y \<longrightarrow> store h' r = store h r) \<and>
          store h' (cells L ! y) =
            take x (store h (cells L ! y)) @
            map (\<lambda>i. draw_cell prob rnd (k + (i - x))) [x..<nat (width L)]"
  using len x
proof (induction "nat (width L) - x" arbitrary: x k h)
  case 0
  then have "\<not> int x < width L" "x = nat (width L)" by linarith+
  then show ?case using 0 by (subst randomize_row.simps) auto
next
  case (Suc m)
  then have lt: "int x < width L" "x < nat (width L)" by linarith+
  define h1 where "h1 = h\<lparr>store := (store h)((cells L ! y) :=
                            (store h (cells L ! y))[x := draw_cell prob rnd k])\<rparr>"
  have step: "randomize_row L prob rnd y x k h = randomize_row L prob rnd y (Suc x) (Suc k) h1"
    using lt y Suc.prems
    by (subst randomize_row.simps) (simp add: set_cell_ok h1_def draw_cell_def)
  have len1: "length (store h1 (cells L ! y)) = nat (width L)"
    using Suc.prems(1) by (simp add: h1_def)
  have m: "m = nat (width L) - Suc x" using Suc(2) by linarith
  have sx: "Suc x \<le> nat (width L)" using lt by linarith
  from Suc(1)[OF m len1 sx, of "Suc k"] obtain h' where
    r: "randomize_row L prob rnd y (Suc x) (Suc k) h1 = Inr (Suc k + (nat (width L) - Suc x), h')"
    and f: "fresh h' = fresh h1"
    and o: "\<forall>r. r \<noteq> cells L ! y \<longrightarrow> store h' r = store h1 r"
    and s: "store h' (cells L ! y) =
            take (Suc x) (store h1 (cells L ! y)) @
            map (\<lambda>i. draw_cell prob rnd (Suc k + (i - Suc x))) [Suc x..<nat (width L)]"
    by blast
  have kk: "Suc k + (nat (width L) - Suc x) = k + (nat (width L) - x)" using lt by linarith
  have tk: "take (Suc x) (store h1 (cells L ! y)) =
            take x (store h (cells L ! y)) @ [draw_cell prob rnd k]"
    using lt Suc.prems(1) by (simp add: h1_def take_Suc_conv_app_nth)
  have up: "[x..<nat (width L)] = x # [Suc x..<nat (width L)]"
    using lt by (simp add: upt_conv_Cons)
  have mp: "map (\<lambda>i. draw_cell prob rnd (Suc k + (i - Suc x))) [Suc x..<nat (width L)] =
            map (\<lambda>i. draw_cell prob rnd (k + (i - x))) [Suc x..<nat (width L)]"
  proof (rule map_cong[OF refl])
    fix i assume "i \<in> set [Suc x..<nat (width L)]"
    then have "Suc x \<le> i" by simp
    then have "Suc k + (i - Suc x) = k + (i - x)" by linarith
    then show "draw_cell prob rnd (Suc k + (i - Suc x)) = draw_cell prob rnd (k + (i - x))"
      by (rule arg_cong)
  qed
  have c1: "randomize_row L prob rnd y x k h = Inr (k + (nat (width L) - x), h')"
    using r unfolding step kk by simp
  have c3: "\<forall>r. r \<noteq> cells L ! y \<longrightarrow> store h' r = store h r"
    using o by (simp add: h1_def)
  have c4: "store h' (cells L ! y) =
            take x (store h (cells L ! y)) @
            map (\<lambda>i. draw_cell prob rnd (k + (i - x))) [x..<nat (width L)]"
    unfolding s tk mp up by simp
  show ?case using c1 f c3 c4 by (auto simp: h1_def)
qed

lemma randomize_rows_ok:
  assumes lc: "length (cells L) = nat (height L)" and dc: "distinct (cells L)"
    and len: "\<forall>r\<in>set (cells L). length (store h r) = nat (width L)"
    and y: "y \<le> nat (height L)"
  shows "\<exists>h'. randomize_rows L prob rnd y k h =
            Inr (k + (nat (height L) - y) * nat (width L), h') \<and>
          fresh h' = fresh h \<and>
          (\<forall>r. r \<notin> set (drop y (cells L)) \<longrightarrow> store h' r = store h r) \<and>
          (\<forall>j. y \<le> j \<and> j < nat (height L) \<longrightarrow>
             store h' (cells L ! j) =
               map (\<lambda>i. draw_cell prob rnd (k + (j - y) * nat (width L) + i)) [0..<nat (width L)])"
  using len y
proof (induction "nat (height L) - y" arbitrary: y k h)
  case 0
  then have "\<not> int y < height L" "y = nat (height L)" by linarith+
  then show ?case by (subst randomize_rows.simps) auto
next
  case (Suc m)
  then have lt: "int y < height L" "y < nat (height L)" by linarith+
  have yc: "y < length (cells L)" using lt lc by simp
  have cy: "cells L ! y \<in> set (cells L)" using yc by simp
  have leny: "length (store h (cells L ! y)) = nat (width L)" using Suc.prems(1) cy by blast
  define k1 where "k1 = k + nat (width L)"
  from randomize_row_ok[OF yc leny, of 0 prob rnd k] obtain h1 where
    r1: "randomize_row L prob rnd y 0 k h = Inr (k1, h1)"
    and f1: "fresh h1 = fresh h"
    and o1: "\<forall>r. r \<noteq> cells L ! y \<longrightarrow> store h1 r = store h r"
    and s1: "store h1 (cells L ! y) = map (\<lambda>i. draw_cell prob rnd (k + i)) [0..<nat (width L)]"
    unfolding k1_def by auto
  have step: "randomize_rows L prob rnd y k h = randomize_rows L prob rnd (Suc y) k1 h1"
    using lt r1 by (subst randomize_rows.simps) simp
  have len1: "\<forall>r\<in>set (cells L). length (store h1 r) = nat (width L)"
  proof
    fix r assume "r \<in> set (cells L)"
    then show "length (store h1 r) = nat (width L)"
      using Suc.prems(1) o1 s1 by (cases "r = cells L ! y") auto
  qed
  have m: "m = nat (height L) - Suc y" using Suc(2) by linarith
  have sy: "Suc y \<le> nat (height L)" using lt by linarith
  from Suc(1)[OF m len1 sy, of k1] obtain h' where
    r: "randomize_rows L prob rnd (Suc y) k1 h1 =
            Inr (k1 + (nat (height L) - Suc y) * nat (width L), h')"
    and f: "fresh h' = fresh h1"
    and o: "\<forall>r. r \<notin> set (drop (Suc y) (cells L)) \<longrightarrow> store h' r = store h1 r"
    and s: "\<forall>j. Suc y \<le> j \<and> j < nat (height L) \<longrightarrow>
             store h' (cells L ! j) =
               map (\<lambda>i. draw_cell prob rnd (k1 + (j - Suc y) * nat (width L) + i))
                 [0..<nat (width L)]"
    by blast
  have dr: "drop y (cells L) = cells L ! y # drop (Suc y) (cells L)"
    using yc by (simp add: Cons_nth_drop_Suc)
  have notin: "cells L ! y \<notin> set (drop (Suc y) (cells L))"
    using dc dr by (metis distinct.simps(2) distinct_drop)
  have hy: "nat (height L) - y = Suc (nat (height L) - Suc y)" using lt by linarith
  have c1: "randomize_rows L prob rnd y k h =
            Inr (k + (nat (height L) - y) * nat (width L), h')"
    using r unfolding step k1_def hy by (simp add: add.assoc)
  have c2: "fresh h' = fresh h" using f f1 by simp
  have c3: "\<forall>r. r \<notin> set (drop y (cells L)) \<longrightarrow> store h' r = store h r"
    using o o1 unfolding dr by auto
  have c4: "\<forall>j. y \<le> j \<and> j < nat (height L) \<longrightarrow>
             store h' (cells L ! j) =
               map (\<lambda>i. draw_cell prob rnd (k + (j - y) * nat (width L) + i)) [0..<nat (width L)]"
  proof (intro allI impI)
    fix j assume j: "y \<le> j \<and> j < nat (height L)"
    show "store h' (cells L ! j) =
               map (\<lambda>i. draw_cell prob rnd (k + (j - y) * nat (width L) + i)) [0..<nat (width L)]"
    proof (cases "j = y")
      case True
      then show ?thesis using o notin s1 by simp
    next
      case False
      then have sj: "Suc y \<le> j" using j by linarith
      then have jy: "j - y = Suc (j - Suc y)" by linarith
      show ?thesis using s sj j unfolding k1_def jy by (simp add: add.assoc)
    qed
  qed
  show ?case using c1 c2 c3 c4 by blast
qed

subsection \<open>The new grid is a valid grid\<close>

lemma cell_at_table:
  assumes "0 \<le> x" "x < w" "0 \<le> y" "y < ht"
  shows "cell_at (map (\<lambda>j. map (\<lambda>i. Num (f (int i) (int j))) [0..<nat w]) [0..<nat ht]) x y =
           Num (f x y)"
proof -
  have "nat y < nat ht" "nat x < nat w" using assms by linarith+
  then show ?thesis using assms by (simp add: cell_at_def js_index_def)
qed

lemma next_state_range: "next_state c n = 0 \<or> next_state c n = 1"
  by (simp add: next_state_def)

lemma next_cell_range: "next_cell L h x y = 0 \<or> next_cell L h x y = 1"
  by (simp add: next_cell_def next_state_range)

lemma valid_engineI:
  assumes "length g = nat (height L)" "distinct g"
    and "\<forall>r\<in>set g. r < fresh h \<and> length (store h r) = nat (width L) \<and>
           (\<forall>c\<in>set (store h r). c = Num 0 \<or> c = Num 1)"
    and "height L \<le> 0 \<or> (0 \<le> width L \<and> width L < 4294967296)"
  shows "valid_engine (L\<lparr>cells := g\<rparr>) h"
proof -
  have e: "g = [] \<or> (0 \<le> width L \<and> width L < 4294967296)"
    using assms(1,4) by auto
  have "int (length g) = max 0 (height L)" using assms(1) by simp
  moreover have "\<forall>r\<in>set g. r < fresh h \<and> int (length (store h r)) = width L \<and>
      width L < 4294967296 \<and> (\<forall>c\<in>set (store h r). c = Num 0 \<or> c = Num 1)"
    using assms(3) e by auto
  ultimately show ?thesis using assms(2) by (simp add: valid_engine_def)
qed

lemma snapshot_rows:
  assumes "snapshot h g = map F [0..<n]"
  shows "length g = n" and "\<forall>j<n. store h (g ! j) = F j"
proof -
  show l: "length g = n" using assms by (metis length_map length_upt diff_zero snapshot_def)
  show "\<forall>j<n. store h (g ! j) = F j"
  proof (intro allI impI)
    fix j assume j: "j < n"
    then have "snapshot h g ! j = store h (g ! j)" using l by (simp add: snapshot_def)
    moreover have "map F [0..<n] ! j = F j" using j by simp
    ultimately show "store h (g ! j) = F j" using assms by simp
  qed
qed

lemma nextGeneration_keeps_valid:
  assumes v: "valid_engine L h"
    and r: "nextGeneration L h = Inr ((g, pop), L', h')"
  shows "valid_engine L' h'"
proof -
  note d = valid_engine_dims[OF v]
  from nextGeneration_valid[OF v] r have
    g: "g = [fresh h ..< fresh h + nat (height L)]" and L': "L' = L\<lparr>cells := g\<rparr>"
    and f: "fresh h' = fresh h + nat (height L)"
    and s: "snapshot h' g =
             map (\<lambda>j. map (\<lambda>i. Num (next_cell L h (int i) (int j))) [0..<nat (width L)])
               [0..<nat (height L)]"
    by auto
  note rows = snapshot_rows[OF s]
  have "\<forall>r\<in>set g. r < fresh h' \<and> length (store h' r) = nat (width L) \<and>
           (\<forall>c\<in>set (store h' r). c = Num 0 \<or> c = Num 1)"
  proof
    fix r assume "r \<in> set g"
    then obtain j where j: "j < length g" "r = g ! j" by (metis in_set_conv_nth)
    then have sr: "store h' r = map (\<lambda>i. Num (next_cell L h (int i) (int j))) [0..<nat (width L)]"
      using rows by simp
    have "r < fresh h'" using \<open>r \<in> set g\<close> g f by simp
    then show "r < fresh h' \<and> length (store h' r) = nat (width L) \<and>
           (\<forall>c\<in>set (store h' r). c = Num 0 \<or> c = Num 1)"
      unfolding sr using next_cell_range by auto
  qed
  from valid_engineI[OF rows(1) _ this d(2)] show ?thesis
    unfolding L' using g by simp
qed

subsection \<open>The concrete engines\<close>

lemma blinker5_valid: "valid_engine (grid_engine blinker5 5 5 False) (grid_heap blinker5)"
  by (simp add: valid_engine_def grid_engine_def grid_heap_def blinker5_def)

lemma corner3_valid: "valid_engine (grid_engine corner3 3 3 wr) (grid_heap corner3)"
  by (simp add: valid_engine_def grid_engine_def grid_heap_def corner3_def)

text \<open>
  The model computes: one \<open>nextGeneration\<close> on the two grids, unfolded step by step. The
  new rows are the references after those of the old grid; the single cell of the wrapped
  3 by 3 grid dies, and the blinker turns while its old rows stay as they were.
\<close>

lemma corner3_step:
  "(case nextGeneration (grid_engine corner3 3 3 True) (grid_heap corner3) of
      Inl e \<Rightarrow> None
    | Inr ((g, pop), L', h') \<Rightarrow> Some (g, pop, cells L', snapshot h' g, fresh h')) =
   Some ([3, 4, 5], 0, [3, 4, 5],
         [[Num 0, Num 0, Num 0], [Num 0, Num 0, Num 0], [Num 0, Num 0, Num 0]], 6)"
  by (simp add: nextGeneration_def createEmpty_def createEmpty_loop.simps new_Array_fill_def
      nextGeneration_rows.simps nextGeneration_row.simps countNeighbors_def neighbor_step_def
      getWrapped_def wrapped_x_def wrapped_y_def js_rem_def get_cell_def js_index_def js_add_def
      set_cell_def array_set_def next_state_def snapshot_def
      grid_engine_def grid_heap_def corner3_def numeral_3_eq_3)

lemma blinker5_step:
  "(case nextGeneration (grid_engine blinker5 5 5 False) (grid_heap blinker5) of
      Inl e \<Rightarrow> None
    | Inr ((g, pop), L', h') \<Rightarrow> Some (g, pop, snapshot h' g, snapshot h' [0, 1, 2, 3, 4])) =
   Some ([5, 6, 7, 8, 9], 3,
         map (map Num) [[0, 0, 0, 0, 0], [0, 0, 1, 0, 0], [0, 0, 1, 0, 0], [0, 0, 1, 0, 0],
                        [0, 0, 0, 0, 0]],
         map (map Num) blinker5)"
  by (simp add: nextGeneration_def createEmpty_def createEmpty_loop.simps new_Array_fill_def
      nextGeneration_rows.simps nextGeneration_row.simps countNeighbors_def neighbor_step_def
      inBounds_def get_cell_def js_index_def js_add_def
      set_cell_def array_set_def next_state_def snapshot_def
      grid_engine_def grid_heap_def blinker5_def numeral_eq_Suc)

subsection \<open>Population\<close>

lemma count_ones_table:
  assumes "\<forall>i. f i = 0 \<or> f i = (1::int)"
  shows "int (length (filter (\<lambda>c. c = Num 1) (map (\<lambda>i. Num (f (int i))) [0..<n]))) =
         (\<Sum>i = 0..<n. f (int i))"
proof (induction n)
  case 0
  show ?case by simp
next
  case (Suc n)
  have "f (int n) = 0 \<or> f (int n) = 1" using assms by blast
  then show ?case using Suc by auto
qed

lemma population_of_table:
  assumes "\<forall>i j. f i j = 0 \<or> f i j = (1::int)"
  shows "population_of (map (\<lambda>j. map (\<lambda>i. Num (f (int i) (int j))) [0..<w]) [0..<ht]) =
         (\<Sum>j = 0..<ht. \<Sum>i = 0..<w. f (int i) (int j))"
proof -
  have "\<And>j. int (length (filter (\<lambda>c. c = Num 1) (map (\<lambda>i. Num (f (int i) (int j))) [0..<w]))) =
         (\<Sum>i = 0..<w. f (int i) (int j))"
    using count_ones_table[of "\<lambda>i. f i (int _)"] assms by simp
  then show ?thesis
    by (simp add: population_of_def comp_def interv_sum_list_conv_sum_set_nat)
qed

lemma moore_count_range: "0 \<le> moore_count L h x y \<and> moore_count L h x y \<le> 8"
proof -
  have "length (filter (neighbor_alive L h x y) moore_offsets) \<le> length moore_offsets"
    by (rule length_filter_le)
  then show ?thesis by (simp add: moore_count_def moore_offsets_def)
qed

subsection \<open>Toggling\<close>

lemma toggle_outside:
  assumes "\<not> inBounds L x y"
  shows "xyFromEvent L x y = None" and "toggle L h x y = Inr h"
proof -
  show n: "xyFromEvent L x y = None"
    using assms by (auto simp: xyFromEvent_def inBounds_def)
  show "toggle L h x y = Inr h" by (simp add: toggle_def n)
qed

lemma toggle_inside:
  assumes v: "valid_engine L h" and i: "inBounds L x y"
  shows "toggle L h x y =
           Inr (h\<lparr>store := (store h)(cells L ! nat y :=
                   (store h (cells L ! nat y))
                     [nat x := flip_cell (cell_at (snapshot h (cells L)) x y)])\<rparr>)"
proof -
  have b: "0 \<le> x" "x < width L" "0 \<le> y" "y < height L"
    using i by (simp_all add: inBounds_def)
  have xy: "xyFromEvent L x y = Some (x, y)"
    using b by (simp add: xyFromEvent_def)
  note d = valid_engine_dims[OF v]
  have ly: "nat y < length (cells L)" using d(1) b by linarith
  then have m: "cells L ! nat y \<in> set (cells L)" by simp
  have "int (length (store h (cells L ! nat y))) = width L"
    using v m by (simp add: valid_engine_def)
  then have lx: "nat x < length (store h (cells L ! nat y))" using b by linarith
  show ?thesis
    by (simp add: toggle_def xy valid_cell(1)[OF v b] set_cell_ok[OF ly lx] flip_cell_def)
qed

lemma cell_at_update:
  assumes dc: "distinct (cells L)" and ly: "0 \<le> y" "nat y < length (cells L)"
    and lx: "0 \<le> x" "nat x < length (store h (cells L ! nat y))"
  shows "cell_at (snapshot (h\<lparr>store := (store h)(cells L ! nat y :=
                     (store h (cells L ! nat y))[nat x := v])\<rparr>) (cells L)) x' y' =
         (if x' = x \<and> y' = y then v else cell_at (snapshot h (cells L)) x' y')"
proof (cases "0 \<le> y' \<and> y' < int (length (cells L))")
  case False
  then have "\<not> (x' = x \<and> y' = y)" using ly by auto
  then show ?thesis using False by (auto simp: cell_at_def snapshot_def)
next
  case True
  then have ly': "nat y' < length (cells L)" by linarith
  show ?thesis
  proof (cases "y' = y")
    case True
    show ?thesis
      using \<open>y' = y\<close> ly lx \<open>0 \<le> y' \<and> y' < int (length (cells L))\<close>
      by (cases "x' = x") (auto simp: cell_at_def snapshot_def js_index_def)
  next
    case False
    then have "nat y' \<noteq> nat y" using True ly by linarith
    then have "cells L ! nat y' \<noteq> cells L ! nat y"
      using dc ly' ly(2) by (simp add: nth_eq_iff_index_eq)
    then show ?thesis using False True ly' by (simp add: cell_at_def snapshot_def)
  qed
qed

lemma toggle_cells:
  assumes v: "valid_engine L h" and i: "inBounds L x y"
  shows "\<exists>h'. toggle L h x y = Inr h' \<and> fresh h' = fresh h \<and>
           (\<forall>r. r \<notin> set (cells L) \<longrightarrow> store h' r = store h r) \<and>
           (\<forall>x' y'. cell_at (snapshot h' (cells L)) x' y' =
              (if x' = x \<and> y' = y then flip_cell (cell_at (snapshot h (cells L)) x y)
               else cell_at (snapshot h (cells L)) x' y')) \<and>
           map length (snapshot h' (cells L)) = map length (snapshot h (cells L)) \<and>
           valid_engine L h'"
proof -
  have b: "0 \<le> x" "x < width L" "0 \<le> y" "y < height L"
    using i by (simp_all add: inBounds_def)
  note d = valid_engine_dims[OF v]
  have dc: "distinct (cells L)" using v by (simp add: valid_engine_def)
  have ly: "nat y < length (cells L)" using d(1) b by linarith
  then have m: "cells L ! nat y \<in> set (cells L)" by simp
  have "int (length (store h (cells L ! nat y))) = width L"
    using v m by (simp add: valid_engine_def)
  then have lx: "nat x < length (store h (cells L ! nat y))" using b by linarith
  define h' where "h' = h\<lparr>store := (store h)(cells L ! nat y :=
                   (store h (cells L ! nat y))
                     [nat x := flip_cell (cell_at (snapshot h (cells L)) x y)])\<rparr>"
  have t: "toggle L h x y = Inr h'" unfolding h'_def by (rule toggle_inside[OF v i])
  have c: "\<forall>x' y'. cell_at (snapshot h' (cells L)) x' y' =
              (if x' = x \<and> y' = y then flip_cell (cell_at (snapshot h (cells L)) x y)
               else cell_at (snapshot h (cells L)) x' y')"
    unfolding h'_def using cell_at_update[OF dc b(3) ly b(1) lx] by blast
  have o: "\<forall>r. r \<notin> set (cells L) \<longrightarrow> store h' r = store h r"
    using m by (auto simp: h'_def)
  have l: "map length (snapshot h' (cells L)) = map length (snapshot h (cells L))"
    by (simp add: snapshot_def h'_def)
  have vr: "\<forall>r\<in>set (cells L). \<forall>c\<in>set (store h' r). c = Num 0 \<or> c = Num 1"
  proof (intro ballI)
    fix r c assume r: "r \<in> set (cells L)" and c: "c \<in> set (store h' r)"
    have old: "\<forall>c\<in>set (store h r). c = Num 0 \<or> c = Num 1"
      using v r by (simp add: valid_engine_def)
    show "c = Num 0 \<or> c = Num 1"
    proof (cases "r = cells L ! nat y")
      case True
      then have "c \<in> insert (flip_cell (cell_at (snapshot h (cells L)) x y)) (set (store h r))"
        using c set_update_subset_insert by (fastforce simp: h'_def)
      moreover have "flip_cell (cell_at (snapshot h (cells L)) x y) = Num 0 \<or>
                     flip_cell (cell_at (snapshot h (cells L)) x y) = Num 1"
        by (simp add: flip_cell_def)
      ultimately show ?thesis using old by auto
    next
      case False
      then show ?thesis using c old by (simp add: h'_def)
    qed
  qed
  have v': "valid_engine L h'"
    using v vr unfolding valid_engine_def by (auto simp: h'_def)
  show ?thesis using t c o l v' by (auto simp: h'_def)
qed

subsection \<open>\<open>clear\<close> and \<open>randomize\<close> on a valid engine\<close>

lemma valid_has_dims:
  assumes "valid_engine L h" "0 \<le> height L"
  shows "has_dims (snapshot h (cells L)) (width L) (height L)"
  using assms by (auto simp: valid_engine_def has_dims_def snapshot_def)

lemma clear_valid:
  assumes v: "valid_engine L h"
  shows "\<exists>g h'. clear L h = Inr (L\<lparr>cells := g\<rparr>, h') \<and>
           snapshot h' g = replicate (nat (height L)) (replicate (nat (width L)) (Num 0)) \<and>
           (\<forall>r<fresh h. store h' r = store h r) \<and>
           valid_engine (L\<lparr>cells := g\<rparr>) h'"
proof -
  note d = valid_engine_dims[OF v]
  define g where "g = [fresh h ..< fresh h + nat (height L)]"
  from createEmpty_ok[OF d(2), of h] obtain h' where
    ce: "createEmpty L h = Inr (g, h')"
    and f: "fresh h' = fresh h + nat (height L)"
    and s: "\<forall>r. store h' r =
              (if fresh h \<le> r \<and> r < fresh h + nat (height L)
               then replicate (nat (width L)) (Num 0) else store h r)"
    unfolding g_def by blast
  have c: "clear L h = Inr (L\<lparr>cells := g\<rparr>, h')" by (simp add: clear_def ce)
  have rows: "\<forall>r\<in>set g. store h' r = replicate (nat (width L)) (Num 0)"
    using s by (simp add: g_def)
  have sn: "snapshot h' g = replicate (nat (height L)) (replicate (nat (width L)) (Num 0))"
    unfolding snapshot_def using rows
    by (intro replicate_eqI) (auto simp: g_def)
  have k: "\<forall>r<fresh h. store h' r = store h r" using s by simp
  have "\<forall>r\<in>set g. r < fresh h' \<and> length (store h' r) = nat (width L) \<and>
           (\<forall>c\<in>set (store h' r). c = Num 0 \<or> c = Num 1)"
    using rows f by (auto simp: g_def)
  from valid_engineI[OF _ _ this d(2)] have "valid_engine (L\<lparr>cells := g\<rparr>) h'"
    by (simp add: g_def)
  then show ?thesis using c sn k by blast
qed

lemma draw_cell_range: "draw_cell prob rnd k = Num 0 \<or> draw_cell prob rnd k = Num 1"
  by (simp add: draw_cell_def)

lemma randomize_valid:
  assumes v: "valid_engine L h"
  shows "\<exists>h'. randomize L prob rnd h = Inr h' \<and> fresh h' = fresh h \<and>
           snapshot h' (cells L) =
             map (\<lambda>j. map (\<lambda>i. draw_cell prob rnd (j * nat (width L) + i)) [0..<nat (width L)])
               [0..<nat (height L)] \<and>
           (\<forall>r. r \<notin> set (cells L) \<longrightarrow> store h' r = store h r) \<and>
           valid_engine L h'"
proof -
  note d = valid_engine_dims[OF v]
  have dc: "distinct (cells L)" using v by (simp add: valid_engine_def)
  have len: "\<forall>r\<in>set (cells L). length (store h r) = nat (width L)"
    using v by (auto simp: valid_engine_def)
  from randomize_rows_ok[OF d(1) dc len le0, of prob rnd 0] obtain k' h' where
    r: "randomize_rows L prob rnd 0 0 h = Inr (k', h')"
    and f: "fresh h' = fresh h"
    and o: "\<forall>r. r \<notin> set (cells L) \<longrightarrow> store h' r = store h r"
    and s: "\<forall>j. j < nat (height L) \<longrightarrow>
             store h' (cells L ! j) =
               map (\<lambda>i. draw_cell prob rnd (j * nat (width L) + i)) [0..<nat (width L)]"
    by auto
  have rr: "randomize L prob rnd h = Inr h'" by (simp add: randomize_def r)
  have sn: "snapshot h' (cells L) =
             map (\<lambda>j. map (\<lambda>i. draw_cell prob rnd (j * nat (width L) + i)) [0..<nat (width L)])
               [0..<nat (height L)]"
  proof (rule nth_equalityI)
    show "length (snapshot h' (cells L)) =
          length (map (\<lambda>j. map (\<lambda>i. draw_cell prob rnd (j * nat (width L) + i))
                    [0..<nat (width L)]) [0..<nat (height L)])"
      by (simp add: snapshot_def d(1))
  next
    fix j assume "j < length (snapshot h' (cells L))"
    then have j: "j < nat (height L)" by (simp add: snapshot_def d(1))
    then show "snapshot h' (cells L) ! j =
          map (\<lambda>j. map (\<lambda>i. draw_cell prob rnd (j * nat (width L) + i))
                    [0..<nat (width L)]) [0..<nat (height L)] ! j"
      using s d(1) by (simp add: snapshot_def)
  qed
  note rows = snapshot_rows[OF sn]
  have vr: "\<forall>r\<in>set (cells L). r < fresh h' \<and> length (store h' r) = nat (width L) \<and>
           (\<forall>c\<in>set (store h' r). c = Num 0 \<or> c = Num 1)"
  proof
    fix r assume m: "r \<in> set (cells L)"
    then obtain j where j: "j < length (cells L)" "r = cells L ! j" by (metis in_set_conv_nth)
    then have sr: "store h' r =
        map (\<lambda>i. draw_cell prob rnd (j * nat (width L) + i)) [0..<nat (width L)]"
      using rows by simp
    have "r < fresh h'" using m d(3) f by simp
    then show "r < fresh h' \<and> length (store h' r) = nat (width L) \<and>
           (\<forall>c\<in>set (store h' r). c = Num 0 \<or> c = Num 1)"
      unfolding sr using draw_cell_range by auto
  qed
  from valid_engineI[OF d(1) dc vr d(2)] have "valid_engine L h'" by simp
  then show ?thesis using rr f sn o by simp
qed

lemma population_of_replicate:
  "population_of (replicate n (replicate m (Num 0))) = 0"
  "population_of (replicate n (replicate m (Num 1))) = int n * int m"
  by (simp_all add: population_of_def sum_list_replicate)

lemma draw_table_const:
  assumes "\<forall>k. draw_cell prob rnd k = v"
  shows "map (\<lambda>j. map (\<lambda>i. draw_cell prob rnd (j * w + i)) [0..<w]) [0..<n] =
         replicate n (replicate w v)"
  using assms by (simp add: map_replicate_const)

lemma single1_valid: "valid_engine (grid_engine single1 1 1 True) (grid_heap single1)"
  by (simp add: valid_engine_def grid_engine_def grid_heap_def single1_def)

lemma blinker5_dims:
  "width (grid_engine blinker5 5 5 False) = 5" "height (grid_engine blinker5 5 5 False) = 5"
  "cells (grid_engine blinker5 5 5 False) = [0, 1, 2, 3, 4]"
  by (simp_all add: grid_engine_def blinker5_def)

subsection \<open>Construction\<close>

lemma createEmpty_fails:
  assumes "0 < height L" "width L < 0 \<or> 4294967296 \<le> width L"
  shows "createEmpty L h = Inl RangeError"
  using assms by (simp add: createEmpty_def createEmpty_loop.simps new_Array_fill_def)

lemma new_Life_ok:
  assumes a: "ht \<le> 0 \<or> (0 \<le> w \<and> w < 4294967296)"
  shows "\<exists>g h'. new_Life w ht wr h = Inr (\<lparr>width = w, height = ht, cells = g, wrap = wr\<rparr>, h') \<and>
         snapshot h' g = replicate (nat ht) (replicate (nat w) (Num 0)) \<and>
         valid_engine \<lparr>width = w, height = ht, cells = g, wrap = wr\<rparr> h'"
proof -
  define E where "E = \<lparr>width = w, height = ht, cells = [], wrap = wr\<rparr>"
  have d: "height E \<le> 0 \<or> (0 \<le> width E \<and> width E < 4294967296)"
    using a by (simp add: E_def)
  define g where "g = [fresh h ..< fresh h + nat (height E)]"
  from createEmpty_ok[OF d, of h] obtain h' where
    ce: "createEmpty E h = Inr (g, h')"
    and f: "fresh h' = fresh h + nat (height E)"
    and s: "\<forall>r. store h' r =
              (if fresh h \<le> r \<and> r < fresh h + nat (height E)
               then replicate (nat (width E)) (Num 0) else store h r)"
    unfolding g_def by blast
  have n: "new_Life w ht wr h = Inr (E\<lparr>cells := g\<rparr>, h')"
    using ce by (simp add: new_Life_def E_def)
  have rows: "\<forall>r\<in>set g. store h' r = replicate (nat (width E)) (Num 0)"
    using s by (simp add: g_def)
  have sn: "snapshot h' g = replicate (nat (height E)) (replicate (nat (width E)) (Num 0))"
    unfolding snapshot_def using rows
    by (intro replicate_eqI) (auto simp: g_def)
  have "\<forall>r\<in>set g. r < fresh h' \<and> length (store h' r) = nat (width E) \<and>
           (\<forall>c\<in>set (store h' r). c = Num 0 \<or> c = Num 1)"
    using rows f by (auto simp: g_def)
  from valid_engineI[OF _ _ this d] have "valid_engine (E\<lparr>cells := g\<rparr>) h'"
    by (simp add: g_def)
  then show ?thesis using n sn by (simp add: E_def)
qed

text \<open>
  Validity is an invariant of the engine: the constructor establishes it (\<open>new_Life_ok\<close>)
  and every operation keeps it, as does setting the wrap flag.
\<close>

lemma valid_engine_kept:
  assumes "valid_engine L h"
  shows "\<exists>g pop L' h'. nextGeneration L h = Inr ((g, pop), L', h') \<and> valid_engine L' h'"
    and "\<exists>h'. toggle L h x y = Inr h' \<and> valid_engine L h'"
    and "\<exists>L' h'. clear L h = Inr (L', h') \<and> valid_engine L' h'"
    and "\<exists>h'. randomize L prob rnd h = Inr h' \<and> valid_engine L h'"
    and "valid_engine (L\<lparr>wrap := b\<rparr>) h"
proof -
  from nextGeneration_valid[OF assms] obtain g pop h' where
    r: "nextGeneration L h = Inr ((g, pop), L\<lparr>cells := g\<rparr>, h')" by blast
  from nextGeneration_keeps_valid[OF assms r] r
  show "\<exists>g pop L' h'. nextGeneration L h = Inr ((g, pop), L', h') \<and> valid_engine L' h'"
    by blast
  show "\<exists>h'. toggle L h x y = Inr h' \<and> valid_engine L h'"
  proof (cases "inBounds L x y")
    case True
    from toggle_cells[OF assms True] show ?thesis by blast
  next
    case False
    from toggle_outside(2)[OF False] assms show ?thesis by simp
  qed
  from clear_valid[OF assms] show "\<exists>L' h'. clear L h = Inr (L', h') \<and> valid_engine L' h'"
    by blast
  from randomize_valid[OF assms] show "\<exists>h'. randomize L prob rnd h = Inr h' \<and> valid_engine L h'"
    by blast
  show "valid_engine (L\<lparr>wrap := b\<rparr>) h"
    using assms by (simp add: valid_engine_def)
qed

subsection \<open>Wrapping on narrow grids\<close>

lemma wrapped_x_valid:
  assumes "0 \<le> x" "x < width L" "-1 \<le> d"
  shows "wrapped_x L (x + d) = Num ((x + d) mod width L)"
  using js_rem_wrap[of "width L" "x + d"] assms by (simp add: wrapped_x_def)

lemma wrapped_y_valid:
  assumes "0 \<le> y" "y < height L" "-1 \<le> d"
  shows "wrapped_y L (y + d) = Num ((y + d) mod height L)"
  using js_rem_wrap[of "height L" "y + d"] assms by (simp add: wrapped_y_def)

lemma small_mod_same:
  assumes "0 < (w::int)" "w < 3"
  shows "(x - 1) mod w = (x + 1) mod w"
proof -
  have "w = 1 \<or> w = 2" using assms by linarith
  then show ?thesis
  proof
    assume "w = 1" then show ?thesis by simp
  next
    assume w: "w = 2"
    show ?thesis unfolding w by presburger
  qed
qed

lemma pair32_valid: "valid_engine (grid_engine pair32 3 2 True) (grid_heap pair32)"
  by (simp add: valid_engine_def grid_engine_def grid_heap_def pair32_def)

lemma moore_count_pair_vertical:
  assumes "neighbor_alive L h x y (0, -1)" "neighbor_alive L h x y (0, 1)"
  shows "2 \<le> moore_count L h x y"
  using assms by (simp add: moore_count_def moore_offsets_def)

lemma moore_count_pair:
  assumes "neighbor_alive L h x y (-1, 0)" "neighbor_alive L h x y (1, 0)"
  shows "2 \<le> moore_count L h x y"
  using assms by (simp add: moore_count_def moore_offsets_def)

subsection \<open>The alive cells of a grid without wrap\<close>

lemma alive_cells_iff:
  "(x, y) \<in> set (alive_cells G) \<longleftrightarrow>
     0 \<le> y \<and> nat y < length G \<and> 0 \<le> x \<and> nat x < length (G ! nat y) \<and>
     G ! nat y ! nat x = Num 1"
proof -
  have "(x, y) \<in> set (alive_cells G) \<longleftrightarrow>
          (\<exists>j<length G. \<exists>i<length (G ! j). G ! j ! i = Num 1 \<and> x = int i \<and> y = int j)"
    unfolding alive_cells_def by auto
  also have "\<dots> \<longleftrightarrow> 0 \<le> y \<and> nat y < length G \<and> 0 \<le> x \<and> nat x < length (G ! nat y) \<and>
     G ! nat y ! nat x = Num 1"
  proof
    assume "\<exists>j<length G. \<exists>i<length (G ! j). G ! j ! i = Num 1 \<and> x = int i \<and> y = int j"
    then show "0 \<le> y \<and> nat y < length G \<and> 0 \<le> x \<and> nat x < length (G ! nat y) \<and>
       G ! nat y ! nat x = Num 1" by auto
  next
    assume a: "0 \<le> y \<and> nat y < length G \<and> 0 \<le> x \<and> nat x < length (G ! nat y) \<and>
       G ! nat y ! nat x = Num 1"
    then have "nat y < length G \<and> nat x < length (G ! nat y) \<and> G ! nat y ! nat x = Num 1 \<and>
        x = int (nat x) \<and> y = int (nat y)" by simp
    then show "\<exists>j<length G. \<exists>i<length (G ! j). G ! j ! i = Num 1 \<and> x = int i \<and> y = int j"
      by blast
  qed
  finally show ?thesis .
qed

lemma alive_cells_cell_at:
  "(x, y) \<in> set (alive_cells G) \<longleftrightarrow> cell_at G x y = Num 1"
proof -
  have "y < int (length G) \<longleftrightarrow> nat y < length G" if "0 \<le> y" using that by linarith
  moreover have "x < int (length (G ! nat y)) \<longleftrightarrow> nat x < length (G ! nat y)" if "0 \<le> x"
    using that by linarith
  ultimately show ?thesis
    unfolding alive_cells_iff by (auto simp: cell_at_def js_index_def)
qed

lemma cell_at_inside:
  assumes "valid_engine L h" "cell_at (snapshot h (cells L)) x y = Num 1"
  shows "0 \<le> x \<and> x < width L \<and> 0 \<le> y \<and> y < height L"
proof -
  have y: "0 \<le> y" "y < int (length (cells L))"
    using assms(2) by (auto simp: cell_at_def snapshot_def split: if_splits)
  then have ly: "nat y < length (cells L)" by linarith
  then have m: "cells L ! nat y \<in> set (cells L)" by simp
  have w: "int (length (store h (cells L ! nat y))) = width L"
    using assms(1) m by (simp add: valid_engine_def)
  have "js_index (store h (cells L ! nat y)) (Num x) = Num 1"
    using assms(2) y ly by (simp add: cell_at_def snapshot_def)
  then have "0 \<le> x \<and> x < width L" using w by (auto simp: js_index_def split: if_splits)
  moreover have "y < height L" using y valid_engine_dims(1)[OF assms(1)] by linarith
  ultimately show ?thesis using y by simp
qed

lemma neighbor_alive_nowrap:
  assumes "valid_engine L h" "\<not> wrap L"
  shows "neighbor_alive L h x y d \<longleftrightarrow>
           (x + fst d, y + snd d) \<in> set (alive_cells (snapshot h (cells L)))"
  using assms cell_at_inside[OF assms(1), of "x + fst d" "y + snd d"]
  by (cases d) (auto simp: neighbor_alive_def alive_cells_cell_at)

lemma next_cell_nowrap:
  assumes v: "valid_engine L h" and nw: "\<not> wrap L"
    and b: "0 \<le> x" "x < width L" "0 \<le> y" "y < height L"
  shows "next_cell L h x y = 1 \<longleftrightarrow> life_rule (set (alive_cells (snapshot h (cells L)))) x y"
proof -
  have n: "moore_count L h x y =
        int (length (filter (\<lambda>d. (x + fst d, y + snd d) \<in> set (alive_cells (snapshot h (cells L))))
               moore_offsets))"
  proof -
    have "neighbor_alive L h x y =
            (\<lambda>d. (x + fst d, y + snd d) \<in> set (alive_cells (snapshot h (cells L))))"
      by (intro ext) (rule neighbor_alive_nowrap[OF v nw])
    then show ?thesis by (simp only: moore_count_def)
  qed
  have c: "cell_at (snapshot h (cells L)) x y = Num 0 \<or> cell_at (snapshot h (cells L)) x y = Num 1"
    by (rule valid_cell(2)[OF v b])
  show ?thesis
    unfolding next_cell_def n life_rule_def Let_def alive_cells_cell_at next_state_def
    using c by auto
qed

lemma nextGeneration_alive_nowrap:
  assumes v: "valid_engine L h" and nw: "\<not> wrap L"
  shows "\<exists>g pop h'. nextGeneration L h = Inr ((g, pop), L\<lparr>cells := g\<rparr>, h') \<and>
           valid_engine (L\<lparr>cells := g\<rparr>) h' \<and>
           set (alive_cells (snapshot h' g)) =
             {(x, y). 0 \<le> x \<and> x < width L \<and> 0 \<le> y \<and> y < height L \<and>
                      life_rule (set (alive_cells (snapshot h (cells L)))) x y}"
proof -
  define g where "g = [fresh h ..< fresh h + nat (height L)]"
  from nextGeneration_valid[OF v] obtain pop h' where
    r: "nextGeneration L h = Inr ((g, pop), L\<lparr>cells := g\<rparr>, h')"
    and s: "snapshot h' g =
             map (\<lambda>j. map (\<lambda>i. Num (next_cell L h (int i) (int j))) [0..<nat (width L)])
               [0..<nat (height L)]"
    unfolding g_def by blast
  have v': "valid_engine (L\<lparr>cells := g\<rparr>) h'"
    by (rule nextGeneration_keeps_valid[OF v r])
  have "(x, y) \<in> set (alive_cells (snapshot h' g)) \<longleftrightarrow>
          0 \<le> x \<and> x < width L \<and> 0 \<le> y \<and> y < height L \<and>
          life_rule (set (alive_cells (snapshot h (cells L)))) x y" for x y
  proof (cases "0 \<le> x \<and> x < width L \<and> 0 \<le> y \<and> y < height L")
    case True
    then have b: "0 \<le> x" "x < width L" "0 \<le> y" "y < height L" by simp_all
    have "cell_at (snapshot h' g) x y = Num (next_cell L h x y)"
      unfolding s by (rule cell_at_table[OF b])
    then show ?thesis
      using True next_cell_nowrap[OF v nw b] by (simp add: alive_cells_cell_at)
  next
    case False
    have "cell_at (snapshot h' g) x y \<noteq> Num 1"
      using cell_at_inside[OF v', of x y] False by auto
    then show ?thesis unfolding alive_cells_cell_at using False by blast
  qed
  then have "set (alive_cells (snapshot h' g)) =
             {(x, y). 0 \<le> x \<and> x < width L \<and> 0 \<le> y \<and> y < height L \<and>
                      life_rule (set (alive_cells (snapshot h (cells L)))) x y}"
    by auto
  then show ?thesis using r v' by blast
qed

subsection \<open>The blinker on the plane\<close>

lemma blinker_horizontal:
  "life_rule {(1, 2), (2, 2), (3, 2)} x y \<longleftrightarrow> (x, y) \<in> {(2, 1), (2, 2), (2, 3)}"
proof -
  consider "y \<noteq> 1 \<and> y \<noteq> 2 \<and> y \<noteq> 3"
    | "x \<noteq> 0 \<and> x \<noteq> 1 \<and> x \<noteq> 2 \<and> x \<noteq> 3 \<and> x \<noteq> 4"
    | "(y = 1 \<or> y = 2 \<or> y = 3) \<and> (x = 0 \<or> x = 1 \<or> x = 2 \<or> x = 3 \<or> x = 4)"
    by blast
  then show ?thesis
  proof cases
    case 1
    then show ?thesis by (simp add: life_rule_def moore_offsets_def)
  next
    case 2
    then show ?thesis by (simp add: life_rule_def moore_offsets_def)
  next
    case 3
    then show ?thesis by (auto simp: life_rule_def moore_offsets_def)
  qed
qed

lemma blinker_vertical:
  "life_rule {(2, 1), (2, 2), (2, 3)} x y \<longleftrightarrow> (x, y) \<in> {(1, 2), (2, 2), (3, 2)}"
proof -
  consider "x \<noteq> 1 \<and> x \<noteq> 2 \<and> x \<noteq> 3"
    | "y \<noteq> 0 \<and> y \<noteq> 1 \<and> y \<noteq> 2 \<and> y \<noteq> 3 \<and> y \<noteq> 4"
    | "(x = 1 \<or> x = 2 \<or> x = 3) \<and> (y = 0 \<or> y = 1 \<or> y = 2 \<or> y = 3 \<or> y = 4)"
    by blast
  then show ?thesis
  proof cases
    case 1
    then show ?thesis by (simp add: life_rule_def moore_offsets_def)
  next
    case 2
    then show ?thesis by (simp add: life_rule_def moore_offsets_def)
  next
    case 3
    then show ?thesis by (auto simp: life_rule_def moore_offsets_def)
  qed
qed

lemma blinker5_alive:
  "set (alive_cells (snapshot (grid_heap blinker5) (cells (grid_engine blinker5 5 5 False)))) =
     {(1, 2), (2, 2), (3, 2)}"
  by (simp add: alive_cells_def snapshot_def grid_heap_def grid_engine_def blinker5_def
      insert_commute)

section \<open>The claims\<close>

subsection \<open>C1: the rule of a generation\<close>

text \<open>
  Claim C1. For every engine and every in-bounds cell \<open>(x, y)\<close>, \<open>nextGeneration\<close> returns
  a grid, which is also the engine's new grid, whose cell \<open>(x, y)\<close> is ALIVE exactly when
  the cell was ALIVE with a neighbour count of 2 or 3, or DEAD with a neighbour count of
  exactly 3. The count is that of \<open>countNeighbors\<close> on the engine and the store before
  the step, so it does not depend on where the sweep stands. The new cell is ALIVE or
  DEAD, every array that existed before the step is left as it was, and so is the input
  grid.
\<close>

theorem nextGeneration_applies_rule:
  assumes "valid_engine L h" and "inBounds L x y"
  shows "\<exists>g pop L' h' n.
           nextGeneration L h = Inr ((g, pop), L', h') \<and> cells L' = g \<and>
           countNeighbors L h x y = Inr (Num n) \<and>
           (cell_at (snapshot h' g) x y = Num 1 \<longleftrightarrow>
              cell_at (snapshot h (cells L)) x y = Num 1 \<and> (n = 2 \<or> n = 3) \<or>
              cell_at (snapshot h (cells L)) x y = Num 0 \<and> n = 3) \<and>
           (cell_at (snapshot h' g) x y = Num 1 \<or> cell_at (snapshot h' g) x y = Num 0) \<and>
           (\<forall>r<fresh h. store h' r = store h r) \<and>
           snapshot h' (cells L) = snapshot h (cells L)"
proof -
  have b: "0 \<le> x" "x < width L" "0 \<le> y" "y < height L"
    using assms(2) by (simp_all add: inBounds_def)
  note d = valid_engine_dims[OF assms(1)]
  define g where "g = [fresh h ..< fresh h + nat (height L)]"
  from nextGeneration_valid[OF assms(1)] obtain pop h' where
    r: "nextGeneration L h = Inr ((g, pop), L\<lparr>cells := g\<rparr>, h')"
    and k: "\<forall>r<fresh h. store h' r = store h r"
    and s: "snapshot h' g =
             map (\<lambda>j. map (\<lambda>i. Num (next_cell L h (int i) (int j))) [0..<nat (width L)])
               [0..<nat (height L)]"
    unfolding g_def by blast
  have c: "cell_at (snapshot h' g) x y = Num (next_cell L h x y)"
    unfolding s by (rule cell_at_table[OF b])
  note o = valid_cell[OF assms(1) b]
  have cn: "countNeighbors L h x y = Inr (Num (moore_count L h x y))"
    by (rule countNeighbors_valid[OF assms(1) b])
  have rule: "cell_at (snapshot h' g) x y = Num 1 \<longleftrightarrow>
              cell_at (snapshot h (cells L)) x y = Num 1 \<and>
                (moore_count L h x y = 2 \<or> moore_count L h x y = 3) \<or>
              cell_at (snapshot h (cells L)) x y = Num 0 \<and> moore_count L h x y = 3"
    unfolding c using o(2) by (auto simp: next_cell_def next_state_def)
  have bin: "cell_at (snapshot h' g) x y = Num 1 \<or> cell_at (snapshot h' g) x y = Num 0"
    unfolding c using next_cell_range[of L h x y] by auto
  have same: "snapshot h' (cells L) = snapshot h (cells L)"
    using k d(3) by (simp add: snapshot_def)
  show ?thesis
    using r cn rule bin k same by (intro exI[of _ g] exI[of _ pop] exI[of _ "L\<lparr>cells := g\<rparr>"]
        exI[of _ h'] exI[of _ "moore_count L h x y"]) simp
qed

theorem nextGeneration_applies_rule_witness:
  "valid_engine (grid_engine blinker5 5 5 False) (grid_heap blinker5) \<and>
   inBounds (grid_engine blinker5 5 5 False) 2 1 \<and>
   (\<exists>g pop L' h' n.
           nextGeneration (grid_engine blinker5 5 5 False) (grid_heap blinker5) =
             Inr ((g, pop), L', h') \<and> cells L' = g \<and>
           countNeighbors (grid_engine blinker5 5 5 False) (grid_heap blinker5) 2 1 = Inr (Num n) \<and>
           (cell_at (snapshot h' g) 2 1 = Num 1 \<longleftrightarrow>
              cell_at (snapshot (grid_heap blinker5) (cells (grid_engine blinker5 5 5 False))) 2 1 = Num 1 \<and>
                (n = 2 \<or> n = 3) \<or>
              cell_at (snapshot (grid_heap blinker5) (cells (grid_engine blinker5 5 5 False))) 2 1 = Num 0 \<and>
                n = 3) \<and>
           (cell_at (snapshot h' g) 2 1 = Num 1 \<or> cell_at (snapshot h' g) 2 1 = Num 0) \<and>
           (\<forall>r<fresh (grid_heap blinker5). store h' r = store (grid_heap blinker5) r) \<and>
           snapshot h' (cells (grid_engine blinker5 5 5 False)) =
             snapshot (grid_heap blinker5) (cells (grid_engine blinker5 5 5 False)))"
proof -
  note v = blinker5_valid
  have b: "inBounds (grid_engine blinker5 5 5 False) 2 1"
    by (simp add: inBounds_def grid_engine_def)
  from nextGeneration_applies_rule[OF v b] v b show ?thesis by blast
qed

subsection \<open>C2: the population that is returned\<close>

text \<open>
  Claim C2. For every engine, the population \<open>nextGeneration\<close> returns is the number of
  ALIVE cells of the grid it returns, which is the engine's new grid.
\<close>

theorem nextGeneration_population:
  assumes "valid_engine L h"
  shows "\<exists>g pop L' h'. nextGeneration L h = Inr ((g, pop), L', h') \<and> cells L' = g \<and>
           pop = population_of (snapshot h' g)"
proof -
  define g where "g = [fresh h ..< fresh h + nat (height L)]"
  from nextGeneration_valid[OF assms] obtain pop h' where
    r: "nextGeneration L h = Inr ((g, pop), L\<lparr>cells := g\<rparr>, h')"
    and s: "snapshot h' g =
             map (\<lambda>j. map (\<lambda>i. Num (next_cell L h (int i) (int j))) [0..<nat (width L)])
               [0..<nat (height L)]"
    and p: "pop = (\<Sum>j = 0..<nat (height L). \<Sum>i = 0..<nat (width L).
                    next_cell L h (int i) (int j))"
    unfolding g_def by blast
  have "population_of (snapshot h' g) = pop"
    unfolding s p by (rule population_of_table) (simp add: next_cell_range)
  then show ?thesis using r by simp
qed

theorem nextGeneration_population_witness:
  "valid_engine (grid_engine blinker5 5 5 False) (grid_heap blinker5) \<and>
   (\<exists>g pop L' h'. nextGeneration (grid_engine blinker5 5 5 False) (grid_heap blinker5) =
        Inr ((g, pop), L', h') \<and> cells L' = g \<and> pop = population_of (snapshot h' g))"
  using nextGeneration_population[OF blinker5_valid] blinker5_valid by blast

subsection \<open>C3: the neighbour count\<close>

text \<open>
  Claim C3. For every in-bounds \<open>(x, y)\<close>, \<open>countNeighbors\<close> returns an integer between 0
  and 8, the number of ALIVE cells among the eight positions of the Moore neighbourhood:
  with wrap enabled each coordinate is reduced modulo the width and the height, with wrap
  disabled a position outside the grid counts for nothing. On the 3 by 3 grid whose only
  ALIVE cell is \<open>(0, 0)\<close>, the count at \<open>(2, 2)\<close> is 1 with wrap and 0 without.
\<close>

theorem countNeighbors_counts_moore:
  assumes "valid_engine L h" and "inBounds L x y"
  shows "countNeighbors L h x y = Inr (Num (moore_count L h x y)) \<and>
         0 \<le> moore_count L h x y \<and> moore_count L h x y \<le> 8 \<and>
         countNeighbors (grid_engine corner3 3 3 True) (grid_heap corner3) 2 2 = Inr (Num 1) \<and>
         countNeighbors (grid_engine corner3 3 3 False) (grid_heap corner3) 2 2 = Inr (Num 0)"
proof -
  have b: "0 \<le> x" "x < width L" "0 \<le> y" "y < height L"
    using assms(2) by (simp_all add: inBounds_def)
  have w: "countNeighbors (grid_engine corner3 3 3 True) (grid_heap corner3) 2 2 = Inr (Num 1)"
    by (simp add: countNeighbors_def neighbor_step_def getWrapped_def wrapped_x_def
        wrapped_y_def js_rem_def get_cell_def js_index_def js_add_def
        grid_engine_def grid_heap_def corner3_def)
  have n: "countNeighbors (grid_engine corner3 3 3 False) (grid_heap corner3) 2 2 = Inr (Num 0)"
    by (simp add: countNeighbors_def neighbor_step_def inBounds_def get_cell_def js_index_def
        js_add_def grid_engine_def grid_heap_def corner3_def)
  show ?thesis
    using countNeighbors_valid[OF assms(1) b] moore_count_range[of L h x y] w n by simp
qed

theorem countNeighbors_counts_moore_witness:
  "valid_engine (grid_engine corner3 3 3 True) (grid_heap corner3) \<and>
   inBounds (grid_engine corner3 3 3 True) 2 2 \<and>
   moore_count (grid_engine corner3 3 3 True) (grid_heap corner3) 2 2 = 1 \<and>
   countNeighbors (grid_engine corner3 3 3 True) (grid_heap corner3) 2 2 =
     Inr (Num (moore_count (grid_engine corner3 3 3 True) (grid_heap corner3) 2 2))"
proof -
  have b: "inBounds (grid_engine corner3 3 3 True) 2 2"
    by (simp add: inBounds_def grid_engine_def)
  have m: "moore_count (grid_engine corner3 3 3 True) (grid_heap corner3) 2 2 = 1"
    by (simp add: moore_count_def moore_offsets_def neighbor_alive_def cell_at_def snapshot_def
        js_index_def grid_engine_def grid_heap_def corner3_def)
  from countNeighbors_counts_moore[OF corner3_valid b] corner3_valid b m show ?thesis by simp
qed

subsection \<open>C4: the dimensions never change\<close>

text \<open>
  Claim C4. For every engine with positive width and height, the grid has \<open>height\<close> rows
  of \<open>width\<close> cells, and so has the grid \<open>nextGeneration\<close> returns; the width and height
  of the engine are unchanged, and neither toggling a cell (at any coordinates), nor
  \<open>clear\<close>, nor \<open>randomize\<close> changes the width or the height of the engine or the shape
  of its grid.
\<close>

theorem dimensions_never_change:
  assumes "valid_engine L h" and "0 < width L" and "0 < height L"
  shows "has_dims (snapshot h (cells L)) (width L) (height L) \<and>
         (\<exists>g pop L' h'. nextGeneration L h = Inr ((g, pop), L', h') \<and> cells L' = g \<and>
            width L' = width L \<and> height L' = height L \<and>
            has_dims (snapshot h' g) (width L) (height L)) \<and>
         (\<exists>h'. toggle L h x y = Inr h' \<and>
            has_dims (snapshot h' (cells L)) (width L) (height L)) \<and>
         (\<exists>L' h'. clear L h = Inr (L', h') \<and>
            width L' = width L \<and> height L' = height L \<and>
            has_dims (snapshot h' (cells L')) (width L) (height L)) \<and>
         (\<exists>h'. randomize L prob rnd h = Inr h' \<and>
            has_dims (snapshot h' (cells L)) (width L) (height L))"
proof -
  have ht: "0 \<le> height L" using assms(3) by simp
  have a: "has_dims (snapshot h (cells L)) (width L) (height L)"
    by (rule valid_has_dims[OF assms(1) ht])
  have b: "\<exists>g pop L' h'. nextGeneration L h = Inr ((g, pop), L', h') \<and> cells L' = g \<and>
            width L' = width L \<and> height L' = height L \<and>
            has_dims (snapshot h' g) (width L) (height L)"
  proof -
    from nextGeneration_valid[OF assms(1)] obtain g pop h' where
      r: "nextGeneration L h = Inr ((g, pop), L\<lparr>cells := g\<rparr>, h')" by blast
    have "valid_engine (L\<lparr>cells := g\<rparr>) h'"
      by (rule nextGeneration_keeps_valid[OF assms(1) r])
    from valid_has_dims[OF this] ht have "has_dims (snapshot h' g) (width L) (height L)"
      by simp
    then show ?thesis using r by simp
  qed
  have c: "\<exists>h'. toggle L h x y = Inr h' \<and>
            has_dims (snapshot h' (cells L)) (width L) (height L)"
  proof (cases "inBounds L x y")
    case True
    from toggle_cells[OF assms(1) True] obtain h' where
      "toggle L h x y = Inr h'" "valid_engine L h'" by blast
    then show ?thesis using valid_has_dims[OF _ ht] by blast
  next
    case False
    then show ?thesis using toggle_outside(2)[OF False] a by simp
  qed
  have d: "\<exists>L' h'. clear L h = Inr (L', h') \<and>
            width L' = width L \<and> height L' = height L \<and>
            has_dims (snapshot h' (cells L')) (width L) (height L)"
  proof -
    from clear_valid[OF assms(1)] obtain g h' where
      r: "clear L h = Inr (L\<lparr>cells := g\<rparr>, h')" and v: "valid_engine (L\<lparr>cells := g\<rparr>) h'"
      by blast
    from valid_has_dims[OF v] ht
    have "has_dims (snapshot h' (cells (L\<lparr>cells := g\<rparr>))) (width L) (height L)" by simp
    then show ?thesis using r by simp
  qed
  have e: "\<exists>h'. randomize L prob rnd h = Inr h' \<and>
            has_dims (snapshot h' (cells L)) (width L) (height L)"
  proof -
    from randomize_valid[OF assms(1)] obtain h' where
      "randomize L prob rnd h = Inr h'" "valid_engine L h'" by blast
    then show ?thesis using valid_has_dims[OF _ ht] by blast
  qed
  show ?thesis using a b c d e by blast
qed

theorem dimensions_never_change_witness:
  "valid_engine (grid_engine blinker5 5 5 False) (grid_heap blinker5) \<and>
   0 < width (grid_engine blinker5 5 5 False) \<and> 0 < height (grid_engine blinker5 5 5 False) \<and>
   has_dims (snapshot (grid_heap blinker5) (cells (grid_engine blinker5 5 5 False))) 5 5 \<and>
   (\<exists>g pop L' h'. nextGeneration (grid_engine blinker5 5 5 False) (grid_heap blinker5) =
        Inr ((g, pop), L', h') \<and> cells L' = g \<and> width L' = 5 \<and> height L' = 5 \<and>
        has_dims (snapshot h' g) 5 5) \<and>
   (\<exists>h'. toggle (grid_engine blinker5 5 5 False) (grid_heap blinker5) 2 2 = Inr h' \<and>
        has_dims (snapshot h' (cells (grid_engine blinker5 5 5 False))) 5 5) \<and>
   (\<exists>L' h'. clear (grid_engine blinker5 5 5 False) (grid_heap blinker5) = Inr (L', h') \<and>
        width L' = 5 \<and> height L' = 5 \<and> has_dims (snapshot h' (cells L')) 5 5) \<and>
   (\<exists>h'. randomize (grid_engine blinker5 5 5 False) (1 / 2) (\<lambda>k. 0) (grid_heap blinker5) = Inr h' \<and>
        has_dims (snapshot h' (cells (grid_engine blinker5 5 5 False))) 5 5)"
proof -
  have w: "0 < width (grid_engine blinker5 5 5 False)" "0 < height (grid_engine blinker5 5 5 False)"
    by (simp_all add: blinker5_dims)
  from dimensions_never_change[OF blinker5_valid w, of 2 2 "1 / 2" "\<lambda>k. 0"] blinker5_valid w
  show ?thesis unfolding blinker5_dims(1,2) by blast
qed

subsection \<open>C5: construction\<close>

text \<open>
  Claim C5 says that constructing an engine fails with InvalidDimension exactly when
  \<open>width \<le> 0\<close> or \<open>height \<le> 0\<close>. The constructor has no check of its arguments and the
  source has no such error: an engine of width 0 and height 0 is built, and so is one of
  negative height; only the allocation of a row can fail.
\<close>

theorem new_Life_counterexample:
  "new_Life 0 0 True empty_heap =
     Inr (\<lparr>width = 0, height = 0, cells = [], wrap = True\<rparr>, empty_heap) \<and>
   new_Life (-3) 0 False empty_heap =
     Inr (\<lparr>width = -3, height = 0, cells = [], wrap = False\<rparr>, empty_heap) \<and>
   new_Life 3 (-1) False empty_heap =
     Inr (\<lparr>width = 3, height = -1, cells = [], wrap = False\<rparr>, empty_heap) \<and>
   new_Life 4294967296 1 True empty_heap = Inl RangeError"
  by (simp add: new_Life_def createEmpty_def createEmpty_loop.simps new_Array_fill_def)

text \<open>
  Claim C5, amended. The constructor checks no dimension. It fails exactly when
  \<open>height > 0\<close> and \<open>width\<close> is negative or at least \<open>2^32\<close>, with the RangeError of the
  row allocation. In every other case it yields an engine with the given width, height
  and wrap flag whose grid has \<open>height\<close> rows (none for \<open>height \<le> 0\<close>) of \<open>width\<close>
  cells, every cell DEAD; for positive width and height this is the \<open>width\<close> by
  \<open>height\<close> grid of DEAD cells.
\<close>

theorem new_Life_no_dimension_check:
  "(0 < ht \<and> (w < 0 \<or> 4294967296 \<le> w) \<longrightarrow> new_Life w ht wr h = Inl RangeError) \<and>
   (ht \<le> 0 \<or> (0 \<le> w \<and> w < 4294967296) \<longrightarrow>
      (\<exists>g h'. new_Life w ht wr h = Inr (\<lparr>width = w, height = ht, cells = g, wrap = wr\<rparr>, h') \<and>
         snapshot h' g = replicate (nat ht) (replicate (nat w) (Num 0)) \<and>
         valid_engine \<lparr>width = w, height = ht, cells = g, wrap = wr\<rparr> h'))"
proof (intro conjI impI)
  assume "0 < ht \<and> (w < 0 \<or> 4294967296 \<le> w)"
  then show "new_Life w ht wr h = Inl RangeError"
    using createEmpty_fails[of "\<lparr>width = w, height = ht, cells = [], wrap = wr\<rparr>" h]
    by (simp add: new_Life_def)
next
  assume "ht \<le> 0 \<or> (0 \<le> w \<and> w < 4294967296)"
  then show "\<exists>g h'. new_Life w ht wr h = Inr (\<lparr>width = w, height = ht, cells = g, wrap = wr\<rparr>, h') \<and>
         snapshot h' g = replicate (nat ht) (replicate (nat w) (Num 0)) \<and>
         valid_engine \<lparr>width = w, height = ht, cells = g, wrap = wr\<rparr> h'"
    by (rule new_Life_ok)
qed

theorem new_Life_no_dimension_check_witness:
  "new_Life (-1) 2 True empty_heap = Inl RangeError \<and>
   (\<exists>g h'. new_Life 3 2 True empty_heap =
        Inr (\<lparr>width = 3, height = 2, cells = g, wrap = True\<rparr>, h') \<and>
      snapshot h' g = [[Num 0, Num 0, Num 0], [Num 0, Num 0, Num 0]] \<and>
      valid_engine \<lparr>width = 3, height = 2, cells = g, wrap = True\<rparr> h') \<and>
   (\<exists>g h'. new_Life (-1) 0 True empty_heap =
        Inr (\<lparr>width = -1, height = 0, cells = g, wrap = True\<rparr>, h') \<and>
      snapshot h' g = [])"
proof -
  have a: "new_Life (-1) 2 True empty_heap = Inl RangeError"
    using new_Life_no_dimension_check[of 2 "-1" True empty_heap] by simp
  have b: "\<exists>g h'. new_Life 3 2 True empty_heap =
        Inr (\<lparr>width = 3, height = 2, cells = g, wrap = True\<rparr>, h') \<and>
      snapshot h' g = [[Num 0, Num 0, Num 0], [Num 0, Num 0, Num 0]] \<and>
      valid_engine \<lparr>width = 3, height = 2, cells = g, wrap = True\<rparr> h'"
    using new_Life_no_dimension_check[of 2 3 True empty_heap]
    by (simp add: numeral_2_eq_2 numeral_3_eq_3)
  have c: "\<exists>g h'. new_Life (-1) 0 True empty_heap =
        Inr (\<lparr>width = -1, height = 0, cells = g, wrap = True\<rparr>, h') \<and>
      snapshot h' g = []"
    using new_Life_no_dimension_check[of 0 "-1" True empty_heap] by auto
  show ?thesis using a b c by blast
qed

subsection \<open>C6: toggling outside the grid\<close>

text \<open>
  Claim C6 says that a toggle at \<open>(x, y)\<close> with \<open>x\<close> outside \<open>[0, width)\<close> or \<open>y\<close>
  outside \<open>[0, height)\<close> fails with OutOfBounds. The source has no such error and signals
  nothing: \<open>xyFromEvent\<close> returns \<open>null\<close> (line 174), the click handler returns on it
  (line 268), and the flip of line 270 has no check of its own. On the 5 by 5 grid the
  toggles at \<open>(-1, 0)\<close> and at \<open>(width, 0)\<close> return normally, with the store they were
  given.
\<close>

theorem toggle_counterexample:
  "toggle (grid_engine blinker5 5 5 False) (grid_heap blinker5) (-1) 0 = Inr (grid_heap blinker5) \<and>
   toggle (grid_engine blinker5 5 5 False) (grid_heap blinker5) 5 0 = Inr (grid_heap blinker5)"
  by (simp add: toggle_def xyFromEvent_def grid_engine_def)

text \<open>
  Claim C6, amended. For integer coordinates, a toggle at \<open>(x, y)\<close> with \<open>x\<close> outside
  \<open>[0, width)\<close> or \<open>y\<close> outside \<open>[0, height)\<close>, in particular at \<open>(-1, 0)\<close> and at
  \<open>(width, 0)\<close>, is ignored without an error: \<open>xyFromEvent\<close> answers \<open>null\<close> and the
  click handler returns normally with the store, hence every cell, unchanged. A toggle
  inside the grid flips the cell \<open>(x, y)\<close> between ALIVE and DEAD, and changes no other
  cell of the grid and no array outside the grid.
\<close>

theorem toggle_checks_bounds:
  assumes "valid_engine L h"
  shows "(\<exists>h'. toggle L h x y = Inr h') \<and>
         (\<not> inBounds L x y \<longrightarrow> xyFromEvent L x y = None \<and> toggle L h x y = Inr h) \<and>
         xyFromEvent L (-1) 0 = None \<and> toggle L h (-1) 0 = Inr h \<and>
         xyFromEvent L (width L) 0 = None \<and> toggle L h (width L) 0 = Inr h \<and>
         (inBounds L x y \<longrightarrow>
            (\<exists>h'. toggle L h x y = Inr h' \<and>
               (cell_at (snapshot h (cells L)) x y = Num 1 \<and>
                  cell_at (snapshot h' (cells L)) x y = Num 0 \<or>
                cell_at (snapshot h (cells L)) x y = Num 0 \<and>
                  cell_at (snapshot h' (cells L)) x y = Num 1) \<and>
               (\<forall>x' y'. x' \<noteq> x \<or> y' \<noteq> y \<longrightarrow>
                  cell_at (snapshot h' (cells L)) x' y' = cell_at (snapshot h (cells L)) x' y') \<and>
               (\<forall>r. r \<notin> set (cells L) \<longrightarrow> store h' r = store h r)))"
proof -
  have a: "\<not> inBounds L x y \<longrightarrow> xyFromEvent L x y = None \<and> toggle L h x y = Inr h"
    using toggle_outside by blast
  have m: "\<not> inBounds L (-1) 0" "\<not> inBounds L (width L) 0" by (simp_all add: inBounds_def)
  have b: "inBounds L x y \<longrightarrow>
            (\<exists>h'. toggle L h x y = Inr h' \<and>
               (cell_at (snapshot h (cells L)) x y = Num 1 \<and>
                  cell_at (snapshot h' (cells L)) x y = Num 0 \<or>
                cell_at (snapshot h (cells L)) x y = Num 0 \<and>
                  cell_at (snapshot h' (cells L)) x y = Num 1) \<and>
               (\<forall>x' y'. x' \<noteq> x \<or> y' \<noteq> y \<longrightarrow>
                  cell_at (snapshot h' (cells L)) x' y' = cell_at (snapshot h (cells L)) x' y') \<and>
               (\<forall>r. r \<notin> set (cells L) \<longrightarrow> store h' r = store h r))"
  proof
    assume i: "inBounds L x y"
    then have bb: "0 \<le> x" "x < width L" "0 \<le> y" "y < height L"
      by (simp_all add: inBounds_def)
    from toggle_cells[OF assms i] obtain h' where
      t: "toggle L h x y = Inr h'"
      and o: "\<forall>r. r \<notin> set (cells L) \<longrightarrow> store h' r = store h r"
      and c: "\<forall>x' y'. cell_at (snapshot h' (cells L)) x' y' =
              (if x' = x \<and> y' = y then flip_cell (cell_at (snapshot h (cells L)) x y)
               else cell_at (snapshot h (cells L)) x' y')"
      by blast
    have f: "cell_at (snapshot h (cells L)) x y = Num 1 \<and>
                  cell_at (snapshot h' (cells L)) x y = Num 0 \<or>
                cell_at (snapshot h (cells L)) x y = Num 0 \<and>
                  cell_at (snapshot h' (cells L)) x y = Num 1"
      using valid_cell(2)[OF assms bb] c by (auto simp: flip_cell_def)
    have n: "\<forall>x' y'. x' \<noteq> x \<or> y' \<noteq> y \<longrightarrow>
                  cell_at (snapshot h' (cells L)) x' y' = cell_at (snapshot h (cells L)) x' y'"
      using c by auto
    show "\<exists>h'. toggle L h x y = Inr h' \<and>
               (cell_at (snapshot h (cells L)) x y = Num 1 \<and>
                  cell_at (snapshot h' (cells L)) x y = Num 0 \<or>
                cell_at (snapshot h (cells L)) x y = Num 0 \<and>
                  cell_at (snapshot h' (cells L)) x y = Num 1) \<and>
               (\<forall>x' y'. x' \<noteq> x \<or> y' \<noteq> y \<longrightarrow>
                  cell_at (snapshot h' (cells L)) x' y' = cell_at (snapshot h (cells L)) x' y') \<and>
               (\<forall>r. r \<notin> set (cells L) \<longrightarrow> store h' r = store h r)"
      using t f n o by blast
  qed
  show ?thesis using a b toggle_outside[OF m(1)] toggle_outside[OF m(2)] by blast
qed

theorem toggle_checks_bounds_witness:
  "valid_engine (grid_engine blinker5 5 5 False) (grid_heap blinker5) \<and>
   xyFromEvent (grid_engine blinker5 5 5 False) 5 0 = None \<and>
   toggle (grid_engine blinker5 5 5 False) (grid_heap blinker5) 5 0 = Inr (grid_heap blinker5) \<and>
   inBounds (grid_engine blinker5 5 5 False) 1 2 \<and>
   (\<exists>h'. toggle (grid_engine blinker5 5 5 False) (grid_heap blinker5) 1 2 = Inr h' \<and>
      cell_at (snapshot (grid_heap blinker5) (cells (grid_engine blinker5 5 5 False))) 1 2 = Num 1 \<and>
      cell_at (snapshot h' (cells (grid_engine blinker5 5 5 False))) 1 2 = Num 0 \<and>
      cell_at (snapshot h' (cells (grid_engine blinker5 5 5 False))) 2 2 = Num 1)"
proof -
  have i: "inBounds (grid_engine blinker5 5 5 False) 1 2"
    by (simp add: inBounds_def blinker5_dims)
  have c: "cell_at (snapshot (grid_heap blinker5) (cells (grid_engine blinker5 5 5 False))) 1 2 = Num 1"
          "cell_at (snapshot (grid_heap blinker5) (cells (grid_engine blinker5 5 5 False))) 2 2 = Num 1"
    by (simp_all add: cell_at_def snapshot_def js_index_def grid_engine_def grid_heap_def blinker5_def)
  have a: "xyFromEvent (grid_engine blinker5 5 5 False) 5 0 = None \<and>
        toggle (grid_engine blinker5 5 5 False) (grid_heap blinker5) 5 0 = Inr (grid_heap blinker5)"
    using toggle_checks_bounds[OF blinker5_valid, of 1 2] by (simp add: blinker5_dims)
  from toggle_checks_bounds[OF blinker5_valid, of 1 2] i obtain h' where
    t: "toggle (grid_engine blinker5 5 5 False) (grid_heap blinker5) 1 2 = Inr h'"
    and f: "cell_at (snapshot (grid_heap blinker5) (cells (grid_engine blinker5 5 5 False))) 1 2 = Num 1 \<and>
            cell_at (snapshot h' (cells (grid_engine blinker5 5 5 False))) 1 2 = Num 0 \<or>
            cell_at (snapshot (grid_heap blinker5) (cells (grid_engine blinker5 5 5 False))) 1 2 = Num 0 \<and>
            cell_at (snapshot h' (cells (grid_engine blinker5 5 5 False))) 1 2 = Num 1"
    and n: "\<forall>x' y'. x' \<noteq> 1 \<or> y' \<noteq> 2 \<longrightarrow>
              cell_at (snapshot h' (cells (grid_engine blinker5 5 5 False))) x' y' =
              cell_at (snapshot (grid_heap blinker5) (cells (grid_engine blinker5 5 5 False))) x' y'"
    by blast
  have "cell_at (snapshot h' (cells (grid_engine blinker5 5 5 False))) 1 2 = Num 0"
    using f c(1) by simp
  moreover have "cell_at (snapshot h' (cells (grid_engine blinker5 5 5 False))) 2 2 = Num 1"
    using n c(2) by simp
  ultimately show ?thesis using blinker5_valid a i t c(1) by blast
qed

subsection \<open>C7: the blinker\<close>

text \<open>
  Claim C7. On an engine without wrap whose grid is at least 5 by 5 and whose ALIVE cells
  are exactly \<open>(1, 2)\<close>, \<open>(2, 2)\<close>, \<open>(3, 2)\<close>, one \<open>nextGeneration\<close> gives a grid whose
  ALIVE cells are exactly \<open>(2, 1)\<close>, \<open>(2, 2)\<close>, \<open>(2, 3)\<close>, and a second one gives back
  exactly the original ALIVE cells.
\<close>

theorem blinker_oscillates:
  assumes v: "valid_engine L h" and nw: "\<not> wrap L"
    and w: "5 \<le> width L" and ht: "5 \<le> height L"
    and a: "set (alive_cells (snapshot h (cells L))) = {(1, 2), (2, 2), (3, 2)}"
  shows "\<exists>g1 p1 L1 h1 g2 p2 L2 h2.
           nextGeneration L h = Inr ((g1, p1), L1, h1) \<and> cells L1 = g1 \<and>
           set (alive_cells (snapshot h1 g1)) = {(2, 1), (2, 2), (2, 3)} \<and>
           nextGeneration L1 h1 = Inr ((g2, p2), L2, h2) \<and> cells L2 = g2 \<and>
           set (alive_cells (snapshot h2 g2)) = {(1, 2), (2, 2), (3, 2)}"
proof -
  from nextGeneration_alive_nowrap[OF v nw] obtain g1 p1 h1 where
    r1: "nextGeneration L h = Inr ((g1, p1), L\<lparr>cells := g1\<rparr>, h1)"
    and v1: "valid_engine (L\<lparr>cells := g1\<rparr>) h1"
    and s1: "set (alive_cells (snapshot h1 g1)) =
             {(x, y). 0 \<le> x \<and> x < width L \<and> 0 \<le> y \<and> y < height L \<and>
                      life_rule (set (alive_cells (snapshot h (cells L)))) x y}"
    by blast
  have a1: "set (alive_cells (snapshot h1 g1)) = {(2, 1), (2, 2), (2, 3)}"
    unfolding s1 a blinker_horizontal using w ht by auto
  define L1 where "L1 = L\<lparr>cells := g1\<rparr>"
  have nw1: "\<not> wrap L1" using nw by (simp add: L1_def)
  have d1: "width L1 = width L" "height L1 = height L" "cells L1 = g1"
    by (simp_all add: L1_def)
  from nextGeneration_alive_nowrap[OF v1[folded L1_def] nw1] obtain g2 p2 h2 where
    r2: "nextGeneration L1 h1 = Inr ((g2, p2), L1\<lparr>cells := g2\<rparr>, h2)"
    and s2: "set (alive_cells (snapshot h2 g2)) =
             {(x, y). 0 \<le> x \<and> x < width L1 \<and> 0 \<le> y \<and> y < height L1 \<and>
                      life_rule (set (alive_cells (snapshot h1 (cells L1)))) x y}"
    by blast
  have a2: "set (alive_cells (snapshot h2 g2)) = {(1, 2), (2, 2), (3, 2)}"
    unfolding s2 d1 a1 blinker_vertical using w ht by auto
  show ?thesis
    using r1 a1 r2 a2 unfolding L1_def[symmetric]
    by (intro exI[of _ g1] exI[of _ p1] exI[of _ L1] exI[of _ h1]
          exI[of _ g2] exI[of _ p2] exI[of _ "L1\<lparr>cells := g2\<rparr>"] exI[of _ h2])
       (simp add: d1)
qed

theorem blinker_oscillates_witness:
  "valid_engine (grid_engine blinker5 5 5 False) (grid_heap blinker5) \<and>
   wrap (grid_engine blinker5 5 5 False) = False \<and>
   5 \<le> width (grid_engine blinker5 5 5 False) \<and> 5 \<le> height (grid_engine blinker5 5 5 False) \<and>
   set (alive_cells (snapshot (grid_heap blinker5) (cells (grid_engine blinker5 5 5 False)))) =
     {(1, 2), (2, 2), (3, 2)} \<and>
   (\<exists>g1 p1 L1 h1 g2 p2 L2 h2.
      nextGeneration (grid_engine blinker5 5 5 False) (grid_heap blinker5) =
        Inr ((g1, p1), L1, h1) \<and> cells L1 = g1 \<and>
      set (alive_cells (snapshot h1 g1)) = {(2, 1), (2, 2), (2, 3)} \<and>
      nextGeneration L1 h1 = Inr ((g2, p2), L2, h2) \<and> cells L2 = g2 \<and>
      set (alive_cells (snapshot h2 g2)) = {(1, 2), (2, 2), (3, 2)})"
proof -
  have nw: "\<not> wrap (grid_engine blinker5 5 5 False)" by (simp add: grid_engine_def)
  have d: "5 \<le> width (grid_engine blinker5 5 5 False)" "5 \<le> height (grid_engine blinker5 5 5 False)"
    by (simp_all add: blinker5_dims)
  from blinker_oscillates[OF blinker5_valid nw d blinker5_alive] blinker5_valid nw d blinker5_alive
  show ?thesis by simp
qed

subsection \<open>C8: toggling twice\<close>

text \<open>
  Claim C8. For every engine and every in-bounds \<open>(x, y)\<close>, toggling \<open>(x, y)\<close> twice in
  succession gives back the original grid (the whole store is as before); the grid in
  between differs from it.
\<close>

theorem toggle_twice_restores:
  assumes v: "valid_engine L h" and i: "inBounds L x y"
  shows "\<exists>h1 h2. toggle L h x y = Inr h1 \<and> toggle L h1 x y = Inr h2 \<and>
           snapshot h2 (cells L) = snapshot h (cells L) \<and> h2 = h \<and>
           snapshot h1 (cells L) \<noteq> snapshot h (cells L)"
proof -
  have b: "0 \<le> x" "x < width L" "0 \<le> y" "y < height L"
    using i by (simp_all add: inBounds_def)
  note d = valid_engine_dims[OF v]
  have ly: "nat y < length (cells L)" using d(1) b by linarith
  then have m: "cells L ! nat y \<in> set (cells L)" by simp
  have lw: "int (length (store h (cells L ! nat y))) = width L"
    using v m by (simp add: valid_engine_def)
  then have lx: "nat x < length (store h (cells L ! nat y))" using b by linarith
  define r where "r = cells L ! nat y"
  define c where "c = cell_at (snapshot h (cells L)) x y"
  have iy: "y < int (length (cells L))" using ly b by linarith
  have cr: "c = store h r ! nat x"
    using ly iy lw b by (simp add: c_def r_def cell_at_def snapshot_def js_index_def)
  define h1 where "h1 = h\<lparr>store := (store h)(r := (store h r)[nat x := flip_cell c])\<rparr>"
  have t1: "toggle L h x y = Inr h1"
    unfolding h1_def r_def c_def by (rule toggle_inside[OF v i])
  from toggle_cells[OF v i] t1 have v1: "valid_engine L h1"
    and c1: "cell_at (snapshot h1 (cells L)) x y = flip_cell c"
    by (auto simp: c_def)
  have t2: "toggle L h1 x y =
              Inr (h1\<lparr>store := (store h1)(r := (store h1 r)[nat x := flip_cell (flip_cell c)])\<rparr>)"
    using toggle_inside[OF v1 i] unfolding c1 r_def by simp
  have c01: "c = Num 0 \<or> c = Num 1" using valid_cell(2)[OF v b] by (simp add: c_def)
  then have ff: "flip_cell (flip_cell c) = c" by (auto simp: flip_cell_def)
  have "(store h1 r)[nat x := c] = store h r"
    using cr by (simp add: h1_def)
  then have restored: "h1\<lparr>store := (store h1)(r := (store h1 r)[nat x := flip_cell (flip_cell c)])\<rparr> = h"
    unfolding ff by (simp add: h1_def)
  have ne: "flip_cell c \<noteq> c" using c01 by (auto simp: flip_cell_def)
  have "cell_at (snapshot h1 (cells L)) x y \<noteq> cell_at (snapshot h (cells L)) x y"
    using c1 ne by (simp add: c_def)
  then have "snapshot h1 (cells L) \<noteq> snapshot h (cells L)" by auto
  then show ?thesis using t1 t2 restored by simp
qed

theorem toggle_twice_restores_witness:
  "valid_engine (grid_engine blinker5 5 5 False) (grid_heap blinker5) \<and>
   inBounds (grid_engine blinker5 5 5 False) 1 2 \<and>
   (\<exists>h1. toggle (grid_engine blinker5 5 5 False) (grid_heap blinker5) 1 2 = Inr h1 \<and>
      toggle (grid_engine blinker5 5 5 False) h1 1 2 = Inr (grid_heap blinker5) \<and>
      snapshot h1 (cells (grid_engine blinker5 5 5 False)) \<noteq>
        snapshot (grid_heap blinker5) (cells (grid_engine blinker5 5 5 False)))"
proof -
  have i: "inBounds (grid_engine blinker5 5 5 False) 1 2"
    by (simp add: inBounds_def blinker5_dims)
  from toggle_twice_restores[OF blinker5_valid i] blinker5_valid i show ?thesis by blast
qed

subsection \<open>C9: \<open>clear\<close>, \<open>randomize(0)\<close> and \<open>randomize(1)\<close>\<close>

text \<open>
  Claim C9. After \<open>clear\<close> every cell is DEAD and the population is 0. For every sequence
  of draws in \<open>[0, 1)\<close>, after \<open>randomize(0)\<close> every cell is DEAD (population 0) and
  after \<open>randomize(1)\<close> every cell is ALIVE (population \<open>width * height\<close>, for a height
  that is not negative).
\<close>

theorem clear_and_randomize_extremes:
  assumes "valid_engine L h" and "\<forall>k. 0 \<le> rnd k \<and> rnd k < 1"
  shows "(\<exists>L' h'. clear L h = Inr (L', h') \<and>
            snapshot h' (cells L') =
              replicate (nat (height L)) (replicate (nat (width L)) (Num 0)) \<and>
            population_of (snapshot h' (cells L')) = 0) \<and>
         (\<exists>h'. randomize L 0 rnd h = Inr h' \<and>
            snapshot h' (cells L) =
              replicate (nat (height L)) (replicate (nat (width L)) (Num 0)) \<and>
            population_of (snapshot h' (cells L)) = 0) \<and>
         (\<exists>h'. randomize L 1 rnd h = Inr h' \<and>
            snapshot h' (cells L) =
              replicate (nat (height L)) (replicate (nat (width L)) (Num 1)) \<and>
            (0 \<le> height L \<longrightarrow> population_of (snapshot h' (cells L)) = width L * height L))"
proof -
  have a: "\<exists>L' h'. clear L h = Inr (L', h') \<and>
            snapshot h' (cells L') =
              replicate (nat (height L)) (replicate (nat (width L)) (Num 0)) \<and>
            population_of (snapshot h' (cells L')) = 0"
  proof -
    from clear_valid[OF assms(1)] obtain g h' where
      "clear L h = Inr (L\<lparr>cells := g\<rparr>, h')"
      "snapshot h' g = replicate (nat (height L)) (replicate (nat (width L)) (Num 0))"
      by blast
    then show ?thesis by (simp add: population_of_replicate)
  qed
  have z: "\<forall>k. draw_cell 0 rnd k = Num 0" using assms(2) by (simp add: draw_cell_def not_less)
  have o: "\<forall>k. draw_cell 1 rnd k = Num 1" using assms(2) by (simp add: draw_cell_def)
  have b: "\<exists>h'. randomize L 0 rnd h = Inr h' \<and>
            snapshot h' (cells L) =
              replicate (nat (height L)) (replicate (nat (width L)) (Num 0)) \<and>
            population_of (snapshot h' (cells L)) = 0"
  proof -
    from randomize_valid[OF assms(1), of 0 rnd] obtain h' where
      "randomize L 0 rnd h = Inr h'"
      "snapshot h' (cells L) =
             map (\<lambda>j. map (\<lambda>i. draw_cell 0 rnd (j * nat (width L) + i)) [0..<nat (width L)])
               [0..<nat (height L)]"
      by blast
    then show ?thesis unfolding draw_table_const[OF z] by (simp add: population_of_replicate)
  qed
  have c: "\<exists>h'. randomize L 1 rnd h = Inr h' \<and>
            snapshot h' (cells L) =
              replicate (nat (height L)) (replicate (nat (width L)) (Num 1)) \<and>
            (0 \<le> height L \<longrightarrow> population_of (snapshot h' (cells L)) = width L * height L)"
  proof -
    from randomize_valid[OF assms(1), of 1 rnd] obtain h' where
      r: "randomize L 1 rnd h = Inr h'"
      and s: "snapshot h' (cells L) =
             map (\<lambda>j. map (\<lambda>i. draw_cell 1 rnd (j * nat (width L) + i)) [0..<nat (width L)])
               [0..<nat (height L)]"
      by blast
    have p: "0 \<le> height L \<longrightarrow> int (nat (height L)) * int (nat (width L)) = width L * height L"
    proof
      assume ht: "0 \<le> height L"
      show "int (nat (height L)) * int (nat (width L)) = width L * height L"
      proof (cases "height L = 0")
        case True
        then show ?thesis by simp
      next
        case False
        then have "0 \<le> width L" using valid_engine_dims(2)[OF assms(1)] ht by linarith
        then show ?thesis using ht by simp
      qed
    qed
    show ?thesis using r s p unfolding draw_table_const[OF o]
      by (simp add: population_of_replicate)
  qed
  show ?thesis using a b c by blast
qed

theorem clear_and_randomize_extremes_witness:
  "valid_engine (grid_engine corner3 3 3 True) (grid_heap corner3) \<and>
   (\<exists>L' h'. clear (grid_engine corner3 3 3 True) (grid_heap corner3) = Inr (L', h') \<and>
      snapshot h' (cells L') = replicate 3 (replicate 3 (Num 0)) \<and>
      population_of (snapshot h' (cells L')) = 0) \<and>
   (\<exists>h'. randomize (grid_engine corner3 3 3 True) 0 (\<lambda>k. 1 / 2) (grid_heap corner3) = Inr h' \<and>
      snapshot h' (cells (grid_engine corner3 3 3 True)) = replicate 3 (replicate 3 (Num 0)) \<and>
      population_of (snapshot h' (cells (grid_engine corner3 3 3 True))) = 0) \<and>
   (\<exists>h'. randomize (grid_engine corner3 3 3 True) 1 (\<lambda>k. 1 / 2) (grid_heap corner3) = Inr h' \<and>
      snapshot h' (cells (grid_engine corner3 3 3 True)) = replicate 3 (replicate 3 (Num 1)) \<and>
      population_of (snapshot h' (cells (grid_engine corner3 3 3 True))) = 9)"
proof -
  have r: "\<forall>k::nat. 0 \<le> (1 / 2 :: real) \<and> (1 / 2 :: real) < 1" by simp
  have d: "width (grid_engine corner3 3 3 True) = 3" "height (grid_engine corner3 3 3 True) = 3"
    by (simp_all add: grid_engine_def)
  note v = corner3_valid[of True]
  have n: "nat 3 = 3" "(3::int) * 3 = 9" "(0::int) \<le> 3" by simp_all
  from clear_and_randomize_extremes[OF v r] v
  show ?thesis unfolding d n by simp
qed

subsection \<open>C10: wrap on a grid narrower or lower than three cells\<close>

text \<open>
  Claim C10. With wrap enabled, on a grid of width below 3 the neighbours to the left
  and to the right of an in-bounds cell wrap to the same column, and on a grid of height
  below 3 the neighbours above and below wrap to the same row. In both cases
  \<open>countNeighbors\<close> adds that cell once for each offset: when it is ALIVE the count is at
  least 2 from this one cell, and on the wrapped grid of width 3 and height 2 whose only
  ALIVE cell is \<open>(1, 1)\<close> the count at \<open>(1, 0)\<close> is 2. On a 1 by 1 grid whose cell is
  ALIVE the count at \<open>(0, 0)\<close> is 8, and the cell is DEAD after \<open>nextGeneration\<close>.
\<close>

theorem small_wrap_counts_a_cell_per_offset:
  assumes "valid_engine L h" and "wrap L" and "inBounds L x y"
  shows "(width L < 3 \<longrightarrow> wrapped_x L (x - 1) = wrapped_x L (x + 1)) \<and>
         (height L < 3 \<longrightarrow> wrapped_y L (y - 1) = wrapped_y L (y + 1)) \<and>
         (width L < 3 \<and> cell_at (snapshot h (cells L)) ((x - 1) mod width L) y = Num 1 \<longrightarrow>
            (\<exists>n. countNeighbors L h x y = Inr (Num n) \<and> 2 \<le> n)) \<and>
         (height L < 3 \<and> cell_at (snapshot h (cells L)) x ((y - 1) mod height L) = Num 1 \<longrightarrow>
            (\<exists>n. countNeighbors L h x y = Inr (Num n) \<and> 2 \<le> n)) \<and>
         countNeighbors (grid_engine pair32 3 2 True) (grid_heap pair32) 1 0 = Inr (Num 2) \<and>
         (width L = 1 \<and> height L = 1 \<and> cell_at (snapshot h (cells L)) 0 0 = Num 1 \<longrightarrow>
            countNeighbors L h 0 0 = Inr (Num 8) \<and>
            (\<exists>g pop L' h'. nextGeneration L h = Inr ((g, pop), L', h') \<and>
               cell_at (snapshot h' g) 0 0 = Num 0 \<and> pop = 0))"
proof (intro conjI impI)
  have b: "0 \<le> x" "x < width L" "0 \<le> y" "y < height L"
    using assms(3) by (simp_all add: inBounds_def)
  {
    assume "width L < 3"
    then have "(x - 1) mod width L = (x + 1) mod width L"
      using b small_mod_same by simp
    then show "wrapped_x L (x - 1) = wrapped_x L (x + 1)"
      using wrapped_x_valid[OF b(1,2), of "-1"] wrapped_x_valid[OF b(1,2), of 1] by simp
  }
  {
    assume "height L < 3"
    then have "(y - 1) mod height L = (y + 1) mod height L"
      using b small_mod_same by simp
    then show "wrapped_y L (y - 1) = wrapped_y L (y + 1)"
      using wrapped_y_valid[OF b(3,4), of "-1"] wrapped_y_valid[OF b(3,4), of 1] by simp
  }
  {
    assume a: "width L < 3 \<and> cell_at (snapshot h (cells L)) ((x - 1) mod width L) y = Num 1"
    have ym: "y mod height L = y" using b by simp
    have xm: "(x + 1) mod width L = (x - 1) mod width L"
      using a b small_mod_same[of "width L" x] by simp
    have l: "neighbor_alive L h x y (-1, 0)"
      using a assms(2) ym by (simp add: neighbor_alive_def)
    have r: "neighbor_alive L h x y (1, 0)"
      using a assms(2) ym xm by (simp add: neighbor_alive_def)
    show "\<exists>n. countNeighbors L h x y = Inr (Num n) \<and> 2 \<le> n"
      using countNeighbors_valid[OF assms(1) b] moore_count_pair[OF l r] by simp
  }
  {
    assume a: "height L < 3 \<and> cell_at (snapshot h (cells L)) x ((y - 1) mod height L) = Num 1"
    have xm: "x mod width L = x" using b by simp
    have ym: "(y + 1) mod height L = (y - 1) mod height L"
      using a b small_mod_same[of "height L" y] by simp
    have u: "neighbor_alive L h x y (0, -1)"
      using a assms(2) xm by (simp add: neighbor_alive_def)
    have d: "neighbor_alive L h x y (0, 1)"
      using a assms(2) ym xm by (simp add: neighbor_alive_def)
    show "\<exists>n. countNeighbors L h x y = Inr (Num n) \<and> 2 \<le> n"
      using countNeighbors_valid[OF assms(1) b] moore_count_pair_vertical[OF u d] by simp
  }
  show "countNeighbors (grid_engine pair32 3 2 True) (grid_heap pair32) 1 0 = Inr (Num 2)"
    by (simp add: countNeighbors_def neighbor_step_def getWrapped_def wrapped_x_def
        wrapped_y_def js_rem_def get_cell_def js_index_def js_add_def
        grid_engine_def grid_heap_def pair32_def)
  {
    assume a: "width L = 1 \<and> height L = 1 \<and> cell_at (snapshot h (cells L)) 0 0 = Num 1"
    then have z: "(0::int) \<le> 0" "0 < width L" "(0::int) \<le> 0" "0 < height L" by simp_all
    have m: "moore_count L h 0 0 = 8"
      using a assms(2) by (simp add: moore_count_def moore_offsets_def neighbor_alive_def)
    show "countNeighbors L h 0 0 = Inr (Num 8)"
      using countNeighbors_valid[OF assms(1) z] m by simp
    have nc: "next_cell L h 0 0 = 0"
      using a m by (simp add: next_cell_def next_state_def)
    define g where "g = [fresh h ..< fresh h + nat (height L)]"
    from nextGeneration_valid[OF assms(1)] obtain pop h' where
      r: "nextGeneration L h = Inr ((g, pop), L\<lparr>cells := g\<rparr>, h')"
      and s: "snapshot h' g =
             map (\<lambda>j. map (\<lambda>i. Num (next_cell L h (int i) (int j))) [0..<nat (width L)])
               [0..<nat (height L)]"
      and p: "pop = (\<Sum>j = 0..<nat (height L). \<Sum>i = 0..<nat (width L).
                    next_cell L h (int i) (int j))"
      unfolding g_def by blast
    have c: "cell_at (snapshot h' g) 0 0 = Num (next_cell L h 0 0)"
      unfolding s by (rule cell_at_table[OF z])
    have "pop = 0" using p a nc by simp
    then show "\<exists>g pop L' h'. nextGeneration L h = Inr ((g, pop), L', h') \<and>
               cell_at (snapshot h' g) 0 0 = Num 0 \<and> pop = 0"
      using r c nc by simp
  }
qed

theorem small_wrap_counts_a_cell_per_offset_witness:
  "valid_engine (grid_engine single1 1 1 True) (grid_heap single1) \<and>
   wrap (grid_engine single1 1 1 True) \<and> inBounds (grid_engine single1 1 1 True) 0 0 \<and>
   wrapped_x (grid_engine single1 1 1 True) (-1) = wrapped_x (grid_engine single1 1 1 True) 1 \<and>
   wrapped_y (grid_engine single1 1 1 True) (-1) = wrapped_y (grid_engine single1 1 1 True) 1 \<and>
   cell_at (snapshot (grid_heap single1) (cells (grid_engine single1 1 1 True))) 0 0 = Num 1 \<and>
   countNeighbors (grid_engine single1 1 1 True) (grid_heap single1) 0 0 = Inr (Num 8) \<and>
   (\<exists>g pop L' h'. nextGeneration (grid_engine single1 1 1 True) (grid_heap single1) =
        Inr ((g, pop), L', h') \<and> cell_at (snapshot h' g) 0 0 = Num 0 \<and> pop = 0) \<and>
   valid_engine (grid_engine pair32 3 2 True) (grid_heap pair32) \<and>
   wrap (grid_engine pair32 3 2 True) \<and> inBounds (grid_engine pair32 3 2 True) 1 0 \<and>
   height (grid_engine pair32 3 2 True) < 3 \<and>
   cell_at (snapshot (grid_heap pair32) (cells (grid_engine pair32 3 2 True))) 1 ((0 - 1) mod 2) =
     Num 1 \<and>
   wrapped_y (grid_engine pair32 3 2 True) (0 - 1) = wrapped_y (grid_engine pair32 3 2 True) (0 + 1) \<and>
   (\<exists>n. countNeighbors (grid_engine pair32 3 2 True) (grid_heap pair32) 1 0 = Inr (Num n) \<and>
        2 \<le> n)"
proof -
  have w: "wrap (grid_engine single1 1 1 True)" by (simp add: grid_engine_def)
  have i: "inBounds (grid_engine single1 1 1 True) 0 0"
    by (simp add: inBounds_def grid_engine_def)
  have d: "width (grid_engine single1 1 1 True) = 1" "height (grid_engine single1 1 1 True) = 1"
    by (simp_all add: grid_engine_def)
  have c: "cell_at (snapshot (grid_heap single1) (cells (grid_engine single1 1 1 True))) 0 0 = Num 1"
    by (simp add: cell_at_def snapshot_def js_index_def grid_engine_def grid_heap_def single1_def)
  have one: "wrapped_x (grid_engine single1 1 1 True) (-1) = wrapped_x (grid_engine single1 1 1 True) 1 \<and>
   wrapped_y (grid_engine single1 1 1 True) (-1) = wrapped_y (grid_engine single1 1 1 True) 1 \<and>
   countNeighbors (grid_engine single1 1 1 True) (grid_heap single1) 0 0 = Inr (Num 8) \<and>
   (\<exists>g pop L' h'. nextGeneration (grid_engine single1 1 1 True) (grid_heap single1) =
        Inr ((g, pop), L', h') \<and> cell_at (snapshot h' g) 0 0 = Num 0 \<and> pop = 0)"
    using small_wrap_counts_a_cell_per_offset[OF single1_valid w i] c d by simp
  have w2: "wrap (grid_engine pair32 3 2 True)" by (simp add: grid_engine_def)
  have i2: "inBounds (grid_engine pair32 3 2 True) 1 0"
    by (simp add: inBounds_def grid_engine_def)
  have d2: "height (grid_engine pair32 3 2 True) = 2" by (simp add: grid_engine_def)
  have c2: "cell_at (snapshot (grid_heap pair32) (cells (grid_engine pair32 3 2 True))) 1 ((0 - 1) mod 2) =
     Num 1"
    by (simp add: cell_at_def snapshot_def js_index_def grid_engine_def grid_heap_def pair32_def)
  have two: "wrapped_y (grid_engine pair32 3 2 True) (0 - 1) =
        wrapped_y (grid_engine pair32 3 2 True) (0 + 1) \<and>
      (\<exists>n. countNeighbors (grid_engine pair32 3 2 True) (grid_heap pair32) 1 0 = Inr (Num n) \<and>
        2 \<le> n)"
    using small_wrap_counts_a_cell_per_offset[OF pair32_valid w2 i2] c2 unfolding d2 by simp
  show ?thesis
    using single1_valid w i c one pair32_valid w2 i2 c2 two unfolding d2 by simp
qed

end
